theory Spec2Isabelle
  imports Main
begin

section \<open>Data model of mod.ts\<close>

text \<open>
  A JavaScript string is modelled by the bytes of its UTF-8 encoding, one
  \<open>char\<close> each: these are the bytes that the host sends for a string body,
  and a text in ASCII is its own model.
\<close>

text \<open>
  The request as the dispatcher reads it: \<open>new URL(req.url).pathname\<close> and
  \<open>req.method\<close>; the body stands for the rest of the request, which only the
  listeners look at. The second argument of every listener and of the
  middleware, \<open>info : Deno.ServeHandlerInfo\<close>, is kept abstract as \<open>'i\<close>.
\<close>

record Request =
  url_pathname :: string
  req_method :: string
  req_body :: string

record ResponseInit =
  headers :: "(string \<times> string) list"
  status :: "int option"

text \<open>\<open>interface ResponseConstructor { body?: BodyInit, init?: ResponseInit }\<close>\<close>

record ResponseConstructor =
  body :: "string option"
  init :: "ResponseInit option"

text \<open>
  A listener is user code: it may read and change the world outside the shell
  (\<open>'w\<close>) before its promise resolves with a payload. Listeners and the
  middleware are taken to return; the dispatcher has no \<open>try\<close>/\<open>catch\<close>
  around them.
\<close>

type_synonym ('i, 'w) listener = "Request \<Rightarrow> 'i \<Rightarrow> 'w \<Rightarrow> ResponseConstructor \<times> 'w"

text \<open>
  The middleware has the TypeScript type \<open>(req, info) => void\<close>; whatever the
  function returns (\<open>None\<close> is \<open>undefined\<close>) is its first component.
\<close>

type_synonym ('i, 'w, 'v) hook = "Request \<Rightarrow> 'i \<Rightarrow> 'w \<Rightarrow> 'v option \<times> 'w"

record ('i, 'w) Route =
  path :: string
  method_of :: string
  callback :: "('i, 'w) listener"

definition equals :: "('i, 'w) Route \<Rightarrow> string \<Rightarrow> string \<Rightarrow> bool" where
  "equals this path' method' =
     (if path this = path' \<and> method_of this = method' then True else False)"

record ServeOptions =
  hostname :: string
  port :: nat

record ('i, 'w, 'v) ServerShell =
  routes :: "('i, 'w) Route list"
  middleware :: "('i, 'w, 'v) hook"
  config :: ServeOptions

datatype error = RouteAlreadyBoundError string

text \<open>The message of the error: \<open>Route "${route}" is already bound.\<close>\<close>

fun message :: "error \<Rightarrow> string" where
  "message (RouteAlreadyBoundError route) =
     ''Route '' @ [CHR 0x22] @ route @ [CHR 0x22] @ '' is already bound.''"

definition default_config :: ServeOptions where
  "default_config = \<lparr>hostname = ''localhost'', port = 8000\<rparr>"

text \<open>
  \<open>new ServerShell(config)\<close>: no routes, and the middleware \<open>() => {}\<close>, which
  does nothing and returns \<open>undefined\<close>.
\<close>

definition constructor :: "ServeOptions \<Rightarrow> ('i, 'w, 'v) ServerShell" where
  "constructor config' =
     \<lparr>routes = [], middleware = (\<lambda>req info w. (None, w)), config = config'\<rparr>"

section \<open>Registration\<close>

text \<open>
  \<open>Array.prototype.forEach\<close> with a callback that may throw: the first throw
  leaves the loop and the enclosing method.
\<close>

fun forEach :: "('a \<Rightarrow> error + unit) \<Rightarrow> 'a list \<Rightarrow> error + unit" where
  "forEach f [] = Inr ()"
| "forEach f (x # xs) = (case f x of Inl e \<Rightarrow> Inl e | Inr _ \<Rightarrow> forEach f xs)"

text \<open>
  Each binding method returns the outcome of the call together with the shell
  as the call leaves it, so that a throw shows what it did to the table.
\<close>

definition get ::
  "string \<Rightarrow> ('i, 'w) listener \<Rightarrow> ('i, 'w, 'v) ServerShell \<Rightarrow> (error + unit) \<times> ('i, 'w, 'v) ServerShell"
where
  "get path' listener this =
     (case forEach (\<lambda>route.
              if path route = path' \<and> (method_of route = ''GET'' \<or> method_of route = ''ANY'')
              then Inl (RouteAlreadyBoundError path') else Inr ()) (routes this) of
        Inl e \<Rightarrow> (Inl e, this)
      | Inr _ \<Rightarrow> (Inr (), this\<lparr>routes := routes this @
                     [\<lparr>path = path', method_of = ''GET'', callback = listener\<rparr>]\<rparr>))"

definition post ::
  "string \<Rightarrow> ('i, 'w) listener \<Rightarrow> ('i, 'w, 'v) ServerShell \<Rightarrow> (error + unit) \<times> ('i, 'w, 'v) ServerShell"
where
  "post path' listener this =
     (case forEach (\<lambda>route.
              if path route = path' \<and> (method_of route = ''POST'' \<or> method_of route = ''ANY'')
              then Inl (RouteAlreadyBoundError path') else Inr ()) (routes this) of
        Inl e \<Rightarrow> (Inl e, this)
      | Inr _ \<Rightarrow> (Inr (), this\<lparr>routes := routes this @
                     [\<lparr>path = path', method_of = ''POST'', callback = listener\<rparr>]\<rparr>))"

definition options ::
  "string \<Rightarrow> ('i, 'w) listener \<Rightarrow> ('i, 'w, 'v) ServerShell \<Rightarrow> (error + unit) \<times> ('i, 'w, 'v) ServerShell"
where
  "options path' listener this =
     (case forEach (\<lambda>route.
              if path route = path' \<and> (method_of route = ''OPTIONS'' \<or> method_of route = ''ANY'')
              then Inl (RouteAlreadyBoundError path') else Inr ()) (routes this) of
        Inl e \<Rightarrow> (Inl e, this)
      | Inr _ \<Rightarrow> (Inr (), this\<lparr>routes := routes this @
                     [\<lparr>path = path', method_of = ''OPTIONS'', callback = listener\<rparr>]\<rparr>))"

definition put ::
  "string \<Rightarrow> ('i, 'w) listener \<Rightarrow> ('i, 'w, 'v) ServerShell \<Rightarrow> (error + unit) \<times> ('i, 'w, 'v) ServerShell"
where
  "put path' listener this =
     (case forEach (\<lambda>route.
              if path route = path' \<and> (method_of route = ''PUT'' \<or> method_of route = ''ANY'')
              then Inl (RouteAlreadyBoundError path') else Inr ()) (routes this) of
        Inl e \<Rightarrow> (Inl e, this)
      | Inr _ \<Rightarrow> (Inr (), this\<lparr>routes := routes this @
                     [\<lparr>path = path', method_of = ''PUT'', callback = listener\<rparr>]\<rparr>))"

definition delete ::
  "string \<Rightarrow> ('i, 'w) listener \<Rightarrow> ('i, 'w, 'v) ServerShell \<Rightarrow> (error + unit) \<times> ('i, 'w, 'v) ServerShell"
where
  "delete path' listener this =
     (case forEach (\<lambda>route.
              if path route = path' \<and> (method_of route = ''DELETE'' \<or> method_of route = ''ANY'')
              then Inl (RouteAlreadyBoundError path') else Inr ()) (routes this) of
        Inl e \<Rightarrow> (Inl e, this)
      | Inr _ \<Rightarrow> (Inr (), this\<lparr>routes := routes this @
                     [\<lparr>path = path', method_of = ''DELETE'', callback = listener\<rparr>]\<rparr>))"

definition any ::
  "string \<Rightarrow> ('i, 'w) listener \<Rightarrow> ('i, 'w, 'v) ServerShell \<Rightarrow> (error + unit) \<times> ('i, 'w, 'v) ServerShell"
where
  "any path' listener this =
     (case forEach (\<lambda>route.
              if path route = path'
              then Inl (RouteAlreadyBoundError path') else Inr ()) (routes this) of
        Inl e \<Rightarrow> (Inl e, this)
      | Inr _ \<Rightarrow> (Inr (), this\<lparr>routes := routes this @
                     [\<lparr>path = path', method_of = ''ANY'', callback = listener\<rparr>]\<rparr>))"

definition use :: "('i, 'w, 'v) hook \<Rightarrow> ('i, 'w, 'v) ServerShell \<Rightarrow> ('i, 'w, 'v) ServerShell" where
  "use middleware' this = this\<lparr>middleware := middleware'\<rparr>"

text \<open>
  The six binding methods of the setup surface, named by the method they bind,
  to state a property of all of them at once.
\<close>

datatype verb = GET | POST | OPTIONS | PUT | DELETE | ANY

fun verb_name :: "verb \<Rightarrow> string" where
  "verb_name GET = ''GET''"
| "verb_name POST = ''POST''"
| "verb_name OPTIONS = ''OPTIONS''"
| "verb_name PUT = ''PUT''"
| "verb_name DELETE = ''DELETE''"
| "verb_name ANY = ''ANY''"

fun register ::
  "verb \<Rightarrow> string \<Rightarrow> ('i, 'w) listener \<Rightarrow> ('i, 'w, 'v) ServerShell \<Rightarrow> (error + unit) \<times> ('i, 'w, 'v) ServerShell"
where
  "register GET = get"
| "register POST = post"
| "register OPTIONS = options"
| "register PUT = put"
| "register DELETE = delete"
| "register ANY = any"

text \<open>
  The conflict of the specification: an existing binding for the same path
  with the same method, or one of the two is the wildcard.
\<close>

definition conflicts :: "('i, 'w) Route list \<Rightarrow> string \<Rightarrow> string \<Rightarrow> bool" where
  "conflicts rs path' method' =
     (\<exists>r \<in> set rs. path r = path' \<and>
        (method_of r = method' \<or> method_of r = ''ANY'' \<or> method' = ''ANY''))"

section \<open>Dispatch\<close>

text \<open>
  \<open>String.prototype.toUpperCase\<close> and \<open>toLowerCase\<close> on the characters an HTTP
  method is made of: the 26 ASCII letters change case, every other character
  stays.
\<close>

definition toUpperCase :: "string \<Rightarrow> string" where
  "toUpperCase s =
     map (\<lambda>c. case map_of (zip ''abcdefghijklmnopqrstuvwxyz'' ''ABCDEFGHIJKLMNOPQRSTUVWXYZ'') c of
                 Some u \<Rightarrow> u | None \<Rightarrow> c) s"

definition toLowerCase :: "string \<Rightarrow> string" where
  "toLowerCase s =
     map (\<lambda>c. case map_of (zip ''ABCDEFGHIJKLMNOPQRSTUVWXYZ'' ''abcdefghijklmnopqrstuvwxyz'') c of
                 Some l \<Rightarrow> l | None \<Rightarrow> c) s"

text \<open>
  What can be observed of a run beyond its result: each call of the
  middleware, each call of a listener (with the path and method of its route),
  and each file that the static binder reads.
\<close>

datatype event =
    Middleware_call
  | Callback_call string string
  | ReadFileSync string

text \<open>
  \<open>new Response(body, init)\<close> as the host sees it: the body, the status (200
  when \<open>init\<close> gives none) and the headers of \<open>init\<close>. The checks that the
  constructor of the host makes on a status chosen by a listener, and the
  content type that it adds to a string body whose \<open>init\<close> names none, are
  not part of the module.
\<close>

record Response =
  resp_body :: "string option"
  resp_status :: int
  resp_headers :: "(string \<times> string) list"

definition new_Response :: "string option \<Rightarrow> ResponseInit option \<Rightarrow> Response" where
  "new_Response body' init' =
     (case init' of
        None \<Rightarrow> \<lparr>resp_body = body', resp_status = 200, resp_headers = []\<rparr>
      | Some i \<Rightarrow> \<lparr>resp_body = body',
                   resp_status = (case status i of None \<Rightarrow> 200 | Some n \<Rightarrow> n),
                   resp_headers = headers i\<rparr>)"

text \<open>
  The loop \<open>for (const route of this.routes)\<close> of the request handler: it has
  no \<open>break\<close>, every route is looked at, and each route that matches
  overwrites \<open>returnvalue\<close> with what its listener returns.
\<close>

fun route_loop ::
  "('i, 'w) Route list \<Rightarrow> string \<Rightarrow> string \<Rightarrow> Request \<Rightarrow> 'i \<Rightarrow> ResponseConstructor \<Rightarrow> 'w
     \<Rightarrow> event list \<times> ResponseConstructor \<times> 'w"
where
  "route_loop [] pathname method' req info returnvalue w = ([], returnvalue, w)"
| "route_loop (route # rest) pathname method' req info returnvalue w =
     (if equals route pathname method' then
        (case callback route req info w of (returnvalue', w') \<Rightarrow>
           (case route_loop rest pathname method' req info returnvalue' w' of (tr, r) \<Rightarrow>
              (Callback_call (path route) (method_of route) # tr, r)))
      else if path route = pathname \<and> method_of route = ''ANY'' then
        (case callback route req info w of (returnvalue', w') \<Rightarrow>
           (case route_loop rest pathname method' req info returnvalue' w' of (tr, r) \<Rightarrow>
              (Callback_call (path route) (method_of route) # tr, r)))
      else route_loop rest pathname method' req info returnvalue w)"

text \<open>The function that \<open>listen\<close> hands to \<open>Deno.serve\<close>, run on one request.\<close>

definition listen_handler ::
  "('i, 'w, 'v) ServerShell \<Rightarrow> Request \<Rightarrow> 'i \<Rightarrow> 'w \<Rightarrow> event list \<times> Response \<times> 'w"
where
  "listen_handler this req info w =
     (let pathname = url_pathname req;
          method' = toUpperCase (req_method req);
          w1 = snd (middleware this req info w);
          returnvalue = \<lparr>body = Some (''Cannot '' @ toLowerCase method' @ '' '' @ pathname),
                         init = Some \<lparr>headers = [(''Content-Type'', ''text/html'')],
                                      status = Some 404\<rparr>\<rparr>
      in case route_loop (routes this) pathname method' req info returnvalue w1 of
           (tr, returnvalue', w2) \<Rightarrow>
             (Middleware_call # tr, new_Response (body returnvalue') (init returnvalue'), w2))"

text \<open>
  The lookup of the specification, \<open>resolve(path, method)\<close>: the first binding
  whose path equals the request path and whose method equals the request
  method or is ANY.
\<close>

definition resolve :: "('i, 'w) Route list \<Rightarrow> string \<Rightarrow> string \<Rightarrow> ('i, 'w) Route option" where
  "resolve rs path' method' =
     find (\<lambda>r. path r = path' \<and> (method_of r = method' \<or> method_of r = ''ANY'')) rs"

text \<open>
  The dispatcher of the specification: the hook, then \<open>resolve\<close>, then the
  handler found (and no other) or the default payload.
\<close>

definition spec_dispatch ::
  "('i, 'w, 'v) ServerShell \<Rightarrow> Request \<Rightarrow> 'i \<Rightarrow> 'w \<Rightarrow> event list \<times> Response \<times> 'w"
where
  "spec_dispatch this req info w =
     (let pathname = url_pathname req;
          method' = toUpperCase (req_method req);
          w1 = snd (middleware this req info w)
      in case resolve (routes this) pathname method' of
           None \<Rightarrow>
             ([Middleware_call],
              \<lparr>resp_body = Some (''Cannot '' @ toLowerCase method' @ '' '' @ pathname),
               resp_status = 404,
               resp_headers = [(''Content-Type'', ''text/html'')]\<rparr>,
              w1)
         | Some r \<Rightarrow>
             (case callback r req info w1 of (payload, w2) \<Rightarrow>
                ([Middleware_call, Callback_call (path r) (method_of r)],
                 new_Response (body payload) (init payload), w2)))"

section \<open>Content types\<close>

text \<open>The labelled cases of the \<open>switch\<close> in \<open>MIMEFromExt\<close>, in the order of the source.\<close>

definition MIMEFromExt_case :: "string \<Rightarrow> string option" where
  "MIMEFromExt_case extension =
     (if extension = ''html'' \<or> extension = ''htm'' then Some ''text/html''
      else if extension = ''css'' then Some ''text/css''
      else if extension = ''js'' \<or> extension = ''mjs'' then Some ''text/javascript''
      else if extension = ''txt'' then Some ''text/plain''
      else if extension = ''svg'' then Some ''image/svg+xml''
      else if extension = ''apng'' then Some ''image/apng''
      else if extension = ''png'' then Some ''image/png''
      else if extension = ''gif'' then Some ''image/gif''
      else if extension = ''jpg'' \<or> extension = ''jpeg'' then Some ''image/jpeg''
      else if extension = ''ico'' then Some ''image/vnd.microsoft.icon''
      else if extension = ''mp4'' then Some ''video/mp4''
      else if extension = ''mpeg'' then Some ''video/mpeg''
      else if extension = ''ogv'' then Some ''video/ogg''
      else if extension = ''mp3'' then Some ''audio/mpeg''
      else if extension = ''oga'' then Some ''audio/ogg''
      else if extension = ''json'' then Some ''application/json''
      else if extension = ''xml'' then Some ''application/xml''
      else if extension = ''zip'' then Some ''application/zip''
      else if extension = ''7z'' then Some ''application/x-7z-compressed''
      else if extension = ''rar'' then Some ''application/vnd.rar''
      else if extension = ''tar'' then Some ''application/x-tar''
      else if extension = ''gz'' then Some ''application/gzip''
      else if extension = ''php'' then Some ''application/x-httpd-php''
      else if extension = ''pdf'' then Some ''application/pdf''
      else if extension = ''sh'' then Some ''application/x-sh''
      else if extension = ''otf'' then Some ''font/otf''
      else if extension = ''ttf'' then Some ''font/ttf''
      else None)"

text \<open>The value \<open>MIMEFromExt\<close> returns; the \<open>default\<close> branch returns \<open>text/plain\<close>.\<close>

definition MIMEFromExt :: "string \<Rightarrow> string" where
  "MIMEFromExt extension =
     (case MIMEFromExt_case extension of Some t \<Rightarrow> t | None \<Rightarrow> ''text/plain'')"

text \<open>What the call writes with \<open>console.log\<close>: one notice in the \<open>default\<close> branch.\<close>

definition MIMEFromExt_console :: "string \<Rightarrow> string list" where
  "MIMEFromExt_console extension =
     (case MIMEFromExt_case extension of
        Some t \<Rightarrow> []
      | None \<Rightarrow>
          [''Encountered unknown extension while generating static routes: .'' @ extension @
           '' - If you want this fixed as quickly as possible, open an issue at https://github.com/SaphirDeFeu/TSMServerShell-Deno/issues''])"

text \<open>The case labels of the \<open>switch\<close>.\<close>

definition MIME_extensions :: "string list" where
  "MIME_extensions =
     [''html'', ''htm'', ''css'', ''js'', ''mjs'', ''txt'', ''svg'', ''apng'', ''png'', ''gif'',
      ''jpg'', ''jpeg'', ''ico'', ''mp4'', ''mpeg'', ''ogv'', ''mp3'', ''oga'', ''json'', ''xml'',
      ''zip'', ''7z'', ''rar'', ''tar'', ''gz'', ''php'', ''pdf'', ''sh'', ''otf'', ''ttf'']"

section \<open>Strings and paths\<close>

text \<open>\<open>String.prototype.split\<close> with a separator of one character.\<close>

fun split :: "char \<Rightarrow> string \<Rightarrow> string list" where
  "split sep [] = [[]]"
| "split sep (c # cs) =
     (if c = sep then [] # split sep cs
      else (case split sep cs of
              [] \<Rightarrow> [[c]]
            | seg # segs \<Rightarrow> (c # seg) # segs))"

text \<open>\<open>Array.prototype.join\<close> with a separator.\<close>

fun Array_join :: "string \<Rightarrow> string list \<Rightarrow> string" where
  "Array_join sep [] = []"
| "Array_join sep [x] = x"
| "Array_join sep (x # y # ys) = x @ sep @ Array_join sep (y # ys)"

text \<open>\<open>String.prototype.replaceAll\<close> with two strings of one character.\<close>

definition replaceAll :: "char \<Rightarrow> char \<Rightarrow> string \<Rightarrow> string" where
  "replaceAll old new s = map (\<lambda>c. if c = old then new else c) s"

text \<open>
  \<open>join\<close> is imported from the Deno standard library (\<open>std@0.215.0/path\<close>)
  and its code is not part of the repository; it is the function of the host
  that the module runs on. The static binder below takes it as a parameter,
  and the two functions of the library are modelled next: \<open>posix_join\<close> and
  \<open>win32_join\<close>.

  Both put the non-empty arguments together and normalise the result, which
  drops empty and \<open>.\<close> segments and lets \<open>..\<close> remove the segment before
  it. \<open>normalizeString\<close> does this on the segments of a path: the stack \<open>res\<close>
  is the normalised path so far, and \<open>allowAboveRoot\<close> is true for a relative
  path.
\<close>

fun normalizeString :: "bool \<Rightarrow> string list \<Rightarrow> string list \<Rightarrow> string list" where
  "normalizeString allowAboveRoot res [] = res"
| "normalizeString allowAboveRoot res (seg # segs) =
     (if seg = [] \<or> seg = ''.'' then normalizeString allowAboveRoot res segs
      else if seg = ''..'' then
        (if res \<noteq> [] \<and> last res \<noteq> ''..''
         then normalizeString allowAboveRoot (butlast res) segs
         else if allowAboveRoot then normalizeString allowAboveRoot (res @ [''..'']) segs
         else normalizeString allowAboveRoot res segs)
      else normalizeString allowAboveRoot (res @ [seg]) segs)"

text \<open>On a POSIX host the separator is \<open>/\<close>.\<close>

definition posix_normalize :: "string \<Rightarrow> string" where
  "posix_normalize path' =
     (if path' = [] then ''.''
      else
        let isAbsolute = (hd path' = CHR ''/'');
            trailingSeparator = (last path' = CHR ''/'');
            p = Array_join ''/'' (normalizeString (\<not> isAbsolute) [] (split CHR ''/'' path'));
            p1 = (if p = [] \<and> \<not> isAbsolute then ''.'' else p);
            p2 = (if p1 \<noteq> [] \<and> trailingSeparator then p1 @ ''/'' else p1)
        in if isAbsolute then ''/'' @ p2 else p2)"

definition posix_join :: "string \<Rightarrow> string \<Rightarrow> string" where
  "posix_join a b =
     (if a = [] then (if b = [] then ''.'' else posix_normalize b)
      else if b = [] then posix_normalize a
      else posix_normalize (a @ ''/'' @ b))"

text \<open>
  On a Windows host \<open>/\<close> and the backslash both separate, and the result is
  written with backslashes. A path may start with a UNC root
  (two separators, a server, a share) or with a drive letter and a colon;
  what follows the root is normalised.
\<close>

definition isPathSeparator :: "char \<Rightarrow> bool" where
  "isPathSeparator c = (c = CHR ''/'' \<or> c = CHR 0x5C)"

definition isWindowsDeviceRoot :: "char \<Rightarrow> bool" where
  "isWindowsDeviceRoot c =
     (c \<in> set ''abcdefghijklmnopqrstuvwxyz'' \<or> c \<in> set ''ABCDEFGHIJKLMNOPQRSTUVWXYZ'')"

fun split_separators :: "string \<Rightarrow> string list" where
  "split_separators [] = [[]]"
| "split_separators (c # cs) =
     (if isPathSeparator c then [] # split_separators cs
      else (case split_separators cs of
              [] \<Rightarrow> [[c]]
            | seg # segs \<Rightarrow> (c # seg) # segs))"

text \<open>
  The root of a Windows path: the device, if any, whether the path is
  absolute, and the rest of the path after the root. \<open>None\<close> is the case in
  which \<open>normalize\<close> returns at once, a UNC root with nothing after it.
\<close>

definition win32_root :: "string \<Rightarrow> (string option \<times> bool \<times> string) option" where
  "win32_root path' =
     (case path' of
        c0 # c1 # rest \<Rightarrow>
          if isPathSeparator c0 then
            (if isPathSeparator c1 then
               (let firstPart = takeWhile (\<lambda>c. \<not> isPathSeparator c) rest;
                    r1 = dropWhile (\<lambda>c. \<not> isPathSeparator c) rest;
                    r2 = dropWhile isPathSeparator r1;
                    share = takeWhile (\<lambda>c. \<not> isPathSeparator c) r2;
                    r3 = dropWhile (\<lambda>c. \<not> isPathSeparator c) r2
                in if firstPart \<noteq> [] \<and> r1 \<noteq> [] \<and> r2 \<noteq> [] then
                     (if r3 = [] then None
                      else Some (Some ([CHR 0x5C, CHR 0x5C] @ firstPart @ [CHR 0x5C] @ share),
                                 True, r3))
                   else Some (None, True, path'))
             else Some (None, True, c1 # rest))
          else if isWindowsDeviceRoot c0 \<and> c1 = CHR '':'' then
            (case rest of
               c2 # rest' \<Rightarrow>
                 if isPathSeparator c2 then Some (Some [c0, c1], True, rest')
                 else Some (Some [c0, c1], False, rest)
             | [] \<Rightarrow> Some (Some [c0, c1], False, []))
          else Some (None, False, path')
      | _ \<Rightarrow> Some (None, False, path'))"

definition win32_normalize :: "string \<Rightarrow> string" where
  "win32_normalize path' =
     (if path' = [] then ''.''
      else if length path' = 1 \<and> isPathSeparator (hd path') then [CHR 0x5C]
      else
        (case win32_root path' of
           None \<Rightarrow>
             [CHR 0x5C, CHR 0x5C] @ takeWhile (\<lambda>c. \<not> isPathSeparator c) (drop 2 path') @
             [CHR 0x5C] @
             dropWhile isPathSeparator (dropWhile (\<lambda>c. \<not> isPathSeparator c) (drop 2 path')) @
             [CHR 0x5C]
         | Some (device, isAbsolute, rest) \<Rightarrow>
             let tail = (if rest \<noteq> []
                         then Array_join [CHR 0x5C]
                                (normalizeString (\<not> isAbsolute) [] (split_separators rest))
                         else []);
                 tail1 = (if tail = [] \<and> \<not> isAbsolute then ''.'' else tail);
                 tail2 = (if tail1 \<noteq> [] \<and> isPathSeparator (last path')
                          then tail1 @ [CHR 0x5C] else tail1)
             in (case device of
                   None \<Rightarrow> if isAbsolute then [CHR 0x5C] @ tail2 else tail2
                 | Some d \<Rightarrow> if isAbsolute then d @ [CHR 0x5C] @ tail2 else d @ tail2)))"

text \<open>
  \<open>join\<close> on Windows puts a backslash between the arguments and, unless the
  first argument starts with a UNC root (exactly two separators), replaces
  two or more separators at the start by one backslash.
\<close>

definition win32_join :: "string \<Rightarrow> string \<Rightarrow> string" where
  "win32_join a b =
     (if a = [] \<and> b = [] then ''.''
      else
        let joined = (if a = [] then b else if b = [] then a else a @ [CHR 0x5C] @ b);
            firstPart = (if a = [] then b else a);
            needsReplace = \<not> (length (takeWhile isPathSeparator (take 3 firstPart)) = 2 \<and>
                              length firstPart > 2);
            slashCount = length (takeWhile isPathSeparator joined)
        in win32_normalize
             (if needsReplace \<and> slashCount \<ge> 2 then [CHR 0x5C] @ drop slashCount joined
              else joined))"

text \<open>
  \<open>new TextDecoder('utf-8').decode(bytes)\<close>: the decoder of the host reads the
  bytes as UTF-8. A well-formed sequence gives its character, whose UTF-8
  encoding is that sequence again; every byte or truncated sequence that is
  not well-formed gives the character U+FFFD, and the byte that broke a
  sequence is read again. \<open>needed\<close> is the number of continuation bytes still
  to come, \<open>lower\<close> and \<open>upper\<close> bound the next one, \<open>pending\<close> holds the bytes
  of the sequence read so far. A byte order mark at the start is dropped.
\<close>

definition replacement :: string where
  "replacement = [CHR 0xEF, CHR 0xBF, CHR 0xBD]"

function utf8_decoder :: "nat \<Rightarrow> nat \<Rightarrow> nat \<Rightarrow> string \<Rightarrow> string \<Rightarrow> string" where
  "utf8_decoder needed lower upper pending [] =
     (if needed \<noteq> 0 then replacement else [])"
| "utf8_decoder needed lower upper pending (b # bs) =
     (let byte = (of_char b :: nat) in
      if needed = 0 then
        (if byte \<le> 0x7F then b # utf8_decoder 0 0x80 0xBF [] bs
         else if 0xC2 \<le> byte \<and> byte \<le> 0xDF then utf8_decoder 1 0x80 0xBF [b] bs
         else if 0xE0 \<le> byte \<and> byte \<le> 0xEF then
           utf8_decoder 2 (if byte = 0xE0 then 0xA0 else 0x80)
             (if byte = 0xED then 0x9F else 0xBF) [b] bs
         else if 0xF0 \<le> byte \<and> byte \<le> 0xF4 then
           utf8_decoder 3 (if byte = 0xF0 then 0x90 else 0x80)
             (if byte = 0xF4 then 0x8F else 0xBF) [b] bs
         else replacement @ utf8_decoder 0 0x80 0xBF [] bs)
      else if \<not> (lower \<le> byte \<and> byte \<le> upper) then
        replacement @ utf8_decoder 0 0x80 0xBF [] (b # bs)
      else if needed = 1 then pending @ [b] @ utf8_decoder 0 0x80 0xBF [] bs
      else utf8_decoder (needed - 1) 0x80 0xBF (pending @ [b]) bs)"
  by pat_completeness auto
termination
  by (relation "measure (\<lambda>(needed, lower, upper, pending, bytes).
        2 * length bytes + (if needed = 0 then 0 else 1))") auto

definition TextDecoder_decode :: "string \<Rightarrow> string" where
  "TextDecoder_decode bytes =
     (if take 3 bytes = [CHR 0xEF, CHR 0xBB, CHR 0xBF]
      then utf8_decoder 0 0x80 0xBF [] (drop 3 bytes)
      else utf8_decoder 0 0x80 0xBF [] bytes)"

section \<open>Static binding\<close>

text \<open>
  What \<open>Deno.readDirSync\<close> and \<open>Deno.readFileSync\<close> find: a regular file with
  its name and the bytes that it holds, a directory with its name and its own
  entries, or an entry that is neither (\<open>isFile\<close> and \<open>isDirectory\<close> both
  false, a symbolic link for instance). The directory that \<open>useStatic\<close> is
  called on is given by its entries; it exists and can be read.
\<close>

datatype DirEntry =
    File string string
  | Directory string "DirEntry list"
  | Other string

text \<open>
  The name and the extension that \<open>useStatic\<close> computes from \<open>entry.name\<close>:
  \<open>split('.')\<close>, the last element, \<open>pop()\<close>, \<open>join('.')\<close>.
\<close>

definition file_extension :: "string \<Rightarrow> string" where
  "file_extension entry_name =
     (let splitFileName = split CHR ''.'' entry_name
      in last splitFileName)"

definition file_name :: "string \<Rightarrow> string" where
  "file_name entry_name =
     (let splitFileName = split CHR ''.'' entry_name
      in Array_join ''.'' (butlast splitFileName))"

text \<open>
  The listener that \<open>useStatic\<close> binds: a closure over \<open>contents\<close>, the decoded
  text, and \<open>extension\<close>. It calls \<open>MIMEFromExt\<close> when it runs; the notice that
  this call may write to the console is left out of the world of the
  listeners.
\<close>

definition static_listener :: "string \<Rightarrow> string \<Rightarrow> ('i, 'w) listener" where
  "static_listener contents extension =
     (\<lambda>req info w.
        (\<lparr>body = Some contents,
          init = Some \<lparr>headers = [(''Content-Type'', MIMEFromExt extension)],
                       status = Some 200\<rparr>\<rparr>, w))"

text \<open>
  \<open>useStatic(staticDirectory, staticRoute)\<close>, with the \<open>join\<close> of the host and
  the entries of \<open>staticDirectory\<close> as first arguments. \<open>useStatic_entry\<close> is
  the body of its loop. A throw of \<open>get\<close> ends the whole walk; the shell keeps
  the routes bound before it.
\<close>

fun useStatic ::
  "(string \<Rightarrow> string \<Rightarrow> string) \<Rightarrow> DirEntry list \<Rightarrow> string \<Rightarrow> string \<Rightarrow> ('i, 'w, 'v) ServerShell
     \<Rightarrow> event list \<times> (error + unit) \<times> ('i, 'w, 'v) ServerShell"
and useStatic_entry ::
  "(string \<Rightarrow> string \<Rightarrow> string) \<Rightarrow> DirEntry \<Rightarrow> string \<Rightarrow> string \<Rightarrow> ('i, 'w, 'v) ServerShell
     \<Rightarrow> event list \<times> (error + unit) \<times> ('i, 'w, 'v) ServerShell"
where
  "useStatic join [] staticDirectory staticRoute this = ([], Inr (), this)"
| "useStatic join (entry # rest) staticDirectory staticRoute this =
     (case useStatic_entry join entry staticDirectory staticRoute this of
        (tr, Inl e, this') \<Rightarrow> (tr, Inl e, this')
      | (tr, Inr _, this') \<Rightarrow>
          (case useStatic join rest staticDirectory staticRoute this' of
             (tr', r) \<Rightarrow> (tr @ tr', r)))"
| "useStatic_entry join (Directory name entries) staticDirectory staticRoute this =
     (let pathnameDir = join staticDirectory name;
          pathnameRoute = join staticRoute name
      in useStatic join entries pathnameDir pathnameRoute this)"
| "useStatic_entry join (File name bytes) staticDirectory staticRoute this =
     (let pathnameDir = join staticDirectory name;
          pathnameRoute = join staticRoute name;
          contents = TextDecoder_decode bytes;
          extension = file_extension name;
          name' = file_name name;
          pathnameRoute' = (if name' = ''index'' \<and> extension = ''html''
                            then join pathnameRoute ''..'' else pathnameRoute)
      in case get (replaceAll (CHR 0x5C) CHR ''/'' pathnameRoute')
                  (static_listener contents extension) this of
           (r, this') \<Rightarrow> ([ReadFileSync pathnameDir], r, this'))"
| "useStatic_entry join (Other name) staticDirectory staticRoute this = ([], Inr (), this)"

section \<open>Reachable shells and the invariant of the table\<close>

text \<open>
  The shells a program can build: a new one, then any calls of the binding
  methods, of \<open>use\<close> and of \<open>useStatic\<close> (on any host and any tree), whether
  they return or throw.
\<close>

inductive reachable :: "('i, 'w, 'v) ServerShell \<Rightarrow> bool" where
  reachable_new: "reachable (constructor config')"
| reachable_register: "reachable this \<Longrightarrow> reachable (snd (register v path' listener this))"
| reachable_use: "reachable this \<Longrightarrow> reachable (use middleware' this)"
| reachable_useStatic:
    "reachable this \<Longrightarrow>
       reachable (snd (snd (useStatic join entries staticDirectory staticRoute this)))"

text \<open>The same without \<open>use\<close>: the shells on which \<open>use\<close> was never called.\<close>

inductive never_used :: "('i, 'w, 'v) ServerShell \<Rightarrow> bool" where
  never_used_new: "never_used (constructor config')"
| never_used_register: "never_used this \<Longrightarrow> never_used (snd (register v path' listener this))"
| never_used_useStatic:
    "never_used this \<Longrightarrow>
       never_used (snd (snd (useStatic join entries staticDirectory staticRoute this)))"

text \<open>Every method of the table is one of the six that the binding methods write.\<close>

definition valid_methods :: "('i, 'w) Route list \<Rightarrow> bool" where
  "valid_methods rs =
     (\<forall>r \<in> set rs. method_of r \<in> set (map verb_name [GET, POST, OPTIONS, PUT, DELETE, ANY]))"

text \<open>
  The invariant of the specification, in its words: for each path, either no
  ANY binding and at most one binding for each method, or exactly one ANY
  binding and no binding with another method. Every method is one of the six.
\<close>

definition count_bindings :: "('i, 'w) Route list \<Rightarrow> (('i, 'w) Route \<Rightarrow> bool) \<Rightarrow> nat" where
  "count_bindings rs P = length (filter P rs)"

definition uniqueness_invariant :: "('i, 'w) Route list \<Rightarrow> bool" where
  "uniqueness_invariant rs =
     (valid_methods rs \<and>
      (\<forall>p. (count_bindings rs (\<lambda>r. path r = p \<and> method_of r = ''ANY'') = 0 \<and>
             (\<forall>m. count_bindings rs (\<lambda>r. path r = p \<and> method_of r = m) \<le> 1))
          \<or> (count_bindings rs (\<lambda>r. path r = p \<and> method_of r = ''ANY'') = 1 \<and>
             count_bindings rs (\<lambda>r. path r = p \<and> method_of r \<noteq> ''ANY'') = 0)))"

text \<open>
  The same invariant as a check that runs along the list: a binding does not
  conflict with any binding after it.
\<close>

fun no_conflicts :: "('i, 'w) Route list \<Rightarrow> bool" where
  "no_conflicts [] = True"
| "no_conflicts (r # rs) = (\<not> conflicts rs (path r) (method_of r) \<and> no_conflicts rs)"

section \<open>The static walk as a list of files\<close>

text \<open>
  The regular files of a tree in the order in which \<open>useStatic\<close> meets them,
  each with the names of the directories above it (from the root of the walk
  down), its own name and its bytes.
\<close>

fun tree_files :: "DirEntry list \<Rightarrow> (string list \<times> string \<times> string) list"
and tree_files_entry :: "DirEntry \<Rightarrow> (string list \<times> string \<times> string) list"
where
  "tree_files [] = []"
| "tree_files (entry # rest) = tree_files_entry entry @ tree_files rest"
| "tree_files_entry (File name bytes) = [([], name, bytes)]"
| "tree_files_entry (Directory name entries) =
     map (\<lambda>f. (name # fst f, snd f)) (tree_files entries)"
| "tree_files_entry (Other name) = []"

text \<open>The path that is read for a file: the directory joined with each name on the way.\<close>

definition static_path ::
  "(string \<Rightarrow> string \<Rightarrow> string) \<Rightarrow> string \<Rightarrow> string list \<times> string \<times> string \<Rightarrow> string"
where
  "static_path join staticDirectory f =
     (case f of (dirs, name, bytes) \<Rightarrow> foldl join staticDirectory (dirs @ [name]))"

text \<open>
  The route that \<open>useStatic\<close> computes for a file: the prefix joined with each
  name on the way, one step up when the name part is \<open>index\<close> and the
  extension \<open>html\<close>, and \<open>replaceAll\<close> on the result.
\<close>

definition static_route ::
  "(string \<Rightarrow> string \<Rightarrow> string) \<Rightarrow> string \<Rightarrow> string list \<times> string \<times> string \<Rightarrow> string"
where
  "static_route join staticRoute f =
     (case f of (dirs, name, bytes) \<Rightarrow>
        let pathnameRoute = foldl join staticRoute (dirs @ [name])
        in replaceAll (CHR 0x5C) CHR ''/''
             (if file_name name = ''index'' \<and> file_extension name = ''html''
              then join pathnameRoute ''..'' else pathnameRoute))"

definition static_binding ::
  "(string \<Rightarrow> string \<Rightarrow> string) \<Rightarrow> string \<Rightarrow> string list \<times> string \<times> string \<Rightarrow> ('i, 'w) Route"
where
  "static_binding join staticRoute f =
     (case f of (dirs, name, bytes) \<Rightarrow>
        \<lparr>path = static_route join staticRoute f, method_of = ''GET'',
         callback = static_listener (TextDecoder_decode bytes) (file_extension name)\<rparr>)"

text \<open>
  The walk as one loop over the files of the tree: each file is read and
  decoded, then bound with \<open>get\<close>, up to the first \<open>get\<close> that throws.
\<close>

fun bind_files ::
  "(string \<Rightarrow> string \<Rightarrow> string) \<Rightarrow> (string list \<times> string \<times> string) list \<Rightarrow> string \<Rightarrow> string
     \<Rightarrow> ('i, 'w, 'v) ServerShell \<Rightarrow> event list \<times> (error + unit) \<times> ('i, 'w, 'v) ServerShell"
where
  "bind_files join [] staticDirectory staticRoute this = ([], Inr (), this)"
| "bind_files join (f # fs) staticDirectory staticRoute this =
     (case get (static_route join staticRoute f)
               (static_listener (TextDecoder_decode (snd (snd f))) (file_extension (fst (snd f))))
               this of
        (Inl e, this') \<Rightarrow> ([ReadFileSync (static_path join staticDirectory f)], Inl e, this')
      | (Inr _, this') \<Rightarrow>
          (case bind_files join fs staticDirectory staticRoute this' of
             (tr, r) \<Rightarrow> (ReadFileSync (static_path join staticDirectory f) # tr, r)))"

text \<open>
  The specification of the walk, first part: which files get their binding.
  The files are taken in order; a file is bound unless its route conflicts
  with a GET or ANY binding of the table or is the route of a file bound
  before it. \<open>bound_count\<close> is the number of files bound before the first one
  that is not; \<open>seen\<close> holds the routes bound so far.
\<close>

fun bound_count :: "('i, 'w) Route list \<Rightarrow> string list \<Rightarrow> string list \<Rightarrow> nat" where
  "bound_count rs seen [] = 0"
| "bound_count rs seen (p # ps) =
     (if conflicts rs p ''GET'' \<or> p \<in> set seen then 0
      else Suc (bound_count rs (p # seen) ps))"

text \<open>
  Second part: the routes. Every backslash of a path becomes \<open>/\<close> and no
  other character changes.
\<close>

definition forward_slashes :: "string \<Rightarrow> string" where
  "forward_slashes s = map (\<lambda>c. if c = CHR 0x5C then CHR ''/'' else c) s"

text \<open>
  The route of the specification for a file under any prefix and on any
  host: the prefix joined with the names of the directories and of the file,
  the parent of that for a file named \<open>index.html\<close>, with forward slashes.
\<close>

definition joined_route ::
  "(string \<Rightarrow> string \<Rightarrow> string) \<Rightarrow> string \<Rightarrow> string list \<times> string \<times> string \<Rightarrow> string"
where
  "joined_route join prefix f =
     (case f of (dirs, name, bytes) \<Rightarrow>
        let joined = foldl join prefix (dirs @ [name])
        in forward_slashes (if name = ''index.html'' then join joined ''..'' else joined))"

text \<open>
  An absolute route written from its segments, \<open>/\<close> for none; and the names
  that a directory entry or a route segment can have: not empty, without
  \<open>/\<close>, and neither \<open>.\<close> nor \<open>..\<close>.
\<close>

definition abs_path :: "string list \<Rightarrow> string" where
  "abs_path segs = ''/'' @ Array_join ''/'' segs"

definition good_name :: "string \<Rightarrow> bool" where
  "good_name n = (n \<noteq> [] \<and> CHR ''/'' \<notin> set n \<and> n \<noteq> ''.'' \<and> n \<noteq> ''..'')"

text \<open>
  A file of the tree whose own name and directory names are such names; and
  the same for a Windows host, where a name holds no backslash either.
\<close>

definition good_file :: "string list \<times> string \<times> string \<Rightarrow> bool" where
  "good_file f = (list_all good_name (fst f) \<and> good_name (fst (snd f)))"

definition windows_name :: "string \<Rightarrow> bool" where
  "windows_name n = (good_name n \<and> CHR 0x5C \<notin> set n)"

definition windows_file :: "string list \<times> string \<times> string \<Rightarrow> bool" where
  "windows_file f = (list_all windows_name (fst f) \<and> windows_name (fst (snd f)))"

text \<open>
  The same route written out, for the prefix with the segments \<open>segs\<close>:
  the prefix, the directories, the file name (left out for \<open>index.html\<close>),
  with forward slashes.
\<close>

definition claimed_route :: "string list \<Rightarrow> string list \<times> string \<times> string \<Rightarrow> string" where
  "claimed_route segs f =
     (case f of (dirs, name, bytes) \<Rightarrow>
        forward_slashes
          (abs_path (segs @ dirs @ (if name = ''index.html'' then [] else [name]))))"

section \<open>The earlier copy of the module\<close>

text \<open>
  The repository holds an earlier copy of the module (\<open>src/unnamed/part_000\<close>),
  with \<open>get\<close> and \<open>post\<close> only and with fewer cases in \<open>MIMEFromExt\<close>. Its
  static binder takes \<open>entry.name.split('.')[1]\<close> as the extension and
  \<open>entry.name.split('.')[0]\<close> as the name (an index out of range is
  \<open>undefined\<close>), and its binding methods reject every binding of the same
  path. The loop of its request handler has the \<open>equals\<close> branch only; no
  binding of that copy has the method ANY.
\<close>

definition file_extension_part_000 :: "string \<Rightarrow> string option" where
  "file_extension_part_000 entry_name =
     (case split CHR ''.'' entry_name of
        a # b # rest \<Rightarrow> Some b
      | _ \<Rightarrow> None)"

definition file_name_part_000 :: "string \<Rightarrow> string option" where
  "file_name_part_000 entry_name =
     (case split CHR ''.'' entry_name of
        a # rest \<Rightarrow> Some a
      | _ \<Rightarrow> None)"

definition get_part_000 ::
  "string \<Rightarrow> ('i, 'w) listener \<Rightarrow> ('i, 'w, 'v) ServerShell \<Rightarrow> (error + unit) \<times> ('i, 'w, 'v) ServerShell"
where
  "get_part_000 path' listener this =
     (case forEach (\<lambda>route.
              if path route = path'
              then Inl (RouteAlreadyBoundError path') else Inr ()) (routes this) of
        Inl e \<Rightarrow> (Inl e, this)
      | Inr _ \<Rightarrow> (Inr (), this\<lparr>routes := routes this @
                     [\<lparr>path = path', method_of = ''GET'', callback = listener\<rparr>]\<rparr>))"

definition post_part_000 ::
  "string \<Rightarrow> ('i, 'w) listener \<Rightarrow> ('i, 'w, 'v) ServerShell \<Rightarrow> (error + unit) \<times> ('i, 'w, 'v) ServerShell"
where
  "post_part_000 path' listener this =
     (case forEach (\<lambda>route.
              if path route = path'
              then Inl (RouteAlreadyBoundError path') else Inr ()) (routes this) of
        Inl e \<Rightarrow> (Inl e, this)
      | Inr _ \<Rightarrow> (Inr (), this\<lparr>routes := routes this @
                     [\<lparr>path = path', method_of = ''POST'', callback = listener\<rparr>]\<rparr>))"

text \<open>A tree for the examples; the files hold text in ASCII.\<close>

definition site_tree :: "DirEntry list" where
  "site_tree =
     [File ''index.html'' ''<h1>home</h1>'',
      Directory ''img'' [File ''logo.png'' ''PNG'', File ''README'' ''read me''],
      Other ''link'',
      Directory ''sub'' [File ''index.html'' ''<h1>sub</h1>'', File ''jquery.min.js'' ''js'']]"

section \<open>Concrete shells for the examples\<close>

definition text_listener :: "string \<Rightarrow> (unit, nat) listener" where
  "text_listener t = (\<lambda>req info w. (\<lparr>body = Some t, init = None\<rparr>, Suc w))"

definition new_shell :: "(unit, nat, unit) ServerShell" where
  "new_shell = constructor default_config"

definition get_request :: "string \<Rightarrow> Request" where
  "get_request p = \<lparr>url_pathname = p, req_method = ''get'', req_body = []\<rparr>"

text \<open>A hook that adds \<open>n\<close> to the world at each call and returns a value.\<close>

definition counting_hook :: "nat \<Rightarrow> (unit, nat, unit) hook" where
  "counting_hook n = (\<lambda>req info w. (Some (), w + n))"

text \<open>A hook with the same effect that returns nothing.\<close>

definition silent_hook :: "nat \<Rightarrow> (unit, nat, unit) hook" where
  "silent_hook n = (\<lambda>req info w. (None, w + n))"

section \<open>Registration: proofs\<close>

lemma forEach_Inr:
  "forEach (\<lambda>x. if P x then Inl e else Inr ()) xs = Inr () \<longleftrightarrow> (\<forall>x \<in> set xs. \<not> P x)"
  by (induction xs) auto

lemma forEach_Inl:
  "forEach (\<lambda>x. if P x then Inl e else Inr ()) xs = Inl e' \<Longrightarrow> e' = e \<and> (\<exists>x \<in> set xs. P x)"
  by (induction xs) (auto split: if_splits)

lemma forEach_cases:
  "forEach (\<lambda>x. if P x then Inl e else Inr ()) xs =
     (if \<exists>x \<in> set xs. P x then Inl e else Inr ())"
  by (induction xs) auto

text \<open>
  Claim C2. Registering a binding whose path and method conflict with a
  binding of the table (same path and the same method, or one of the two is
  ANY) throws \<open>RouteAlreadyBoundError\<close> from the call itself and leaves the shell,
  and with it the table, exactly as it was; a registration without conflict
  returns and appends the new binding. This holds for each of \<open>get\<close>, \<open>post\<close>,
  \<open>options\<close>, \<open>put\<close>, \<open>delete\<close> and \<open>any\<close>, on every table.
\<close>

theorem register_conflict:
  "(conflicts (routes this) path' (verb_name v) \<longrightarrow>
      register v path' listener this = (Inl (RouteAlreadyBoundError path'), this)) \<and>
   (\<not> conflicts (routes this) path' (verb_name v) \<longrightarrow>
      register v path' listener this =
        (Inr (), this\<lparr>routes := routes this @
                   [\<lparr>path = path', method_of = verb_name v, callback = listener\<rparr>]\<rparr>))"
  by (cases v) (auto simp add: get_def post_def options_def put_def delete_def any_def
      forEach_cases conflicts_def)

theorem register_conflict_witness:
  "conflicts (routes (snd (get ''/a'' (text_listener ''one'') new_shell))) ''/a'' (verb_name ANY) \<and>
   register ANY ''/a'' (text_listener ''two'') (snd (get ''/a'' (text_listener ''one'') new_shell)) =
     (Inl (RouteAlreadyBoundError ''/a''), snd (get ''/a'' (text_listener ''one'') new_shell)) \<and>
   \<not> conflicts (routes (snd (get ''/a'' (text_listener ''one'') new_shell))) ''/a'' (verb_name POST) \<and>
   map method_of (routes (snd (register POST ''/a'' (text_listener ''two'')
       (snd (get ''/a'' (text_listener ''one'') new_shell))))) = [''GET'', ''POST'']"
  using register_conflict [of "snd (get ''/a'' (text_listener ''one'') new_shell)" "''/a''" ANY "text_listener ''two''"]
    register_conflict [of "snd (get ''/a'' (text_listener ''one'') new_shell)" "''/a''" POST "text_listener ''two''"]
  by (simp add: get_def new_shell_def constructor_def conflicts_def)

section \<open>The static walk keeps what \<open>get\<close> keeps\<close>

lemma useStatic_preserves:
  fixes P :: "('i, 'w, 'v) ServerShell \<Rightarrow> bool"
  assumes step: "\<And>p l s. P s \<Longrightarrow> P (snd (get p l s))"
  shows "P this \<Longrightarrow> P (snd (snd (useStatic join entries staticDirectory staticRoute this)))"
    and "P this \<Longrightarrow> P (snd (snd (useStatic_entry join entry staticDirectory staticRoute this)))"
proof (induction join entries staticDirectory staticRoute this
    and join entry staticDirectory staticRoute this
    rule: useStatic_useStatic_entry.induct)
  case (1 join staticDirectory staticRoute this)
  then show ?case by simp
next
  case (2 join entry rest staticDirectory staticRoute this)
  show ?case
  proof (cases "useStatic_entry join entry staticDirectory staticRoute this")
    case (fields tr r this')
    have P': "P this'" using "2.IH"(1) [OF "2.prems"] fields by simp
    show ?thesis
    proof (cases r)
      case (Inl e)
      then show ?thesis using fields P' by simp
    next
      case (Inr u)
      then show ?thesis using fields "2.IH"(2) [OF fields [symmetric] _ _ P']
        by (auto split: prod.splits)
    qed
  qed
next
  case (3 join name entries staticDirectory staticRoute this)
  then show ?case by (simp add: Let_def)
next
  case (4 join name bytes staticDirectory staticRoute this)
  then show ?case using step by (simp add: Let_def split: prod.splits)
next
  case (5 join name staticDirectory staticRoute this)
  then show ?case by simp
qed

section \<open>The invariant of the table: proofs\<close>

lemma no_conflicts_append:
  "no_conflicts (rs @ [r]) \<longleftrightarrow> no_conflicts rs \<and> \<not> conflicts rs (path r) (method_of r)"
  by (induction rs) (auto simp add: conflicts_def)

lemma register_routes:
  "routes (snd (register v p l this)) =
     (if conflicts (routes this) p (verb_name v) then routes this
      else routes this @ [\<lparr>path = p, method_of = verb_name v, callback = l\<rparr>])"
  by (cases v) (auto simp add: get_def post_def options_def put_def delete_def any_def
      forEach_cases conflicts_def)

lemma register_middleware: "middleware (snd (register v p l this)) = middleware this"
  by (cases v) (auto simp add: get_def post_def options_def put_def delete_def any_def
      split: sum.splits)

lemma register_no_conflicts:
  "no_conflicts (routes this) \<Longrightarrow> no_conflicts (routes (snd (register v p l this)))"
  by (simp add: register_routes no_conflicts_append)

lemma register_valid_methods:
  "valid_methods (routes this) \<Longrightarrow> valid_methods (routes (snd (register v p l this)))"
  by (cases v) (auto simp add: register_routes valid_methods_def simp del: register.simps)

lemma reachable_no_conflicts: "reachable this \<Longrightarrow> no_conflicts (routes this)"
proof (induction rule: reachable.induct)
  case (reachable_new config')
  show ?case by (simp add: constructor_def)
next
  case (reachable_register this v path' listener)
  show ?case using reachable_register.IH by (rule register_no_conflicts)
next
  case (reachable_use this middleware')
  then show ?case by (simp add: use_def)
next
  case (reachable_useStatic this join entries staticDirectory staticRoute)
  show ?case
  proof (rule useStatic_preserves(1) [where P = "\<lambda>s. no_conflicts (routes s)"])
    fix p l and s :: "('a, 'b, 'c) ServerShell"
    assume "no_conflicts (routes s)"
    then show "no_conflicts (routes (snd (get p l s)))"
      using register_no_conflicts [of s GET p l] by simp
  qed (rule reachable_useStatic.IH)
qed

lemma reachable_valid_methods: "reachable this \<Longrightarrow> valid_methods (routes this)"
proof (induction rule: reachable.induct)
  case (reachable_new config')
  show ?case by (simp add: constructor_def valid_methods_def)
next
  case (reachable_register this v path' listener)
  show ?case using reachable_register.IH by (rule register_valid_methods)
next
  case (reachable_use this middleware')
  then show ?case by (simp add: use_def)
next
  case (reachable_useStatic this join entries staticDirectory staticRoute)
  show ?case
  proof (rule useStatic_preserves(1) [where P = "\<lambda>s. valid_methods (routes s)"])
    fix p l and s :: "('a, 'b, 'c) ServerShell"
    assume "valid_methods (routes s)"
    then show "valid_methods (routes (snd (get p l s)))"
      using register_valid_methods [of s GET p l] by simp
  qed (rule reachable_useStatic.IH)
qed

lemma filter_count_split:
  "length (filter P xs) =
     length (filter (\<lambda>x. P x \<and> Q x) xs) + length (filter (\<lambda>x. P x \<and> \<not> Q x) xs)"
  by (induction xs) auto

lemma no_conflicts_one_per_method:
  "no_conflicts rs \<Longrightarrow> length (filter (\<lambda>r. path r = p \<and> method_of r = m) rs) \<le> 1"
proof (induction rs)
  case Nil
  show ?case by simp
next
  case (Cons r rs)
  show ?case
  proof (cases "path r = p \<and> method_of r = m")
    case True
    with Cons.prems have "\<forall>r' \<in> set rs. \<not> (path r' = p \<and> method_of r' = m)"
      by (auto simp add: conflicts_def)
    then have "filter (\<lambda>r. path r = p \<and> method_of r = m) rs = []"
      by (simp add: filter_empty_conv)
    with True show ?thesis by simp
  next
    case False
    with Cons show ?thesis by auto
  qed
qed

lemma no_conflicts_any_alone:
  "no_conflicts rs \<Longrightarrow> r \<in> set rs \<Longrightarrow> path r = p \<Longrightarrow> method_of r = ''ANY'' \<Longrightarrow>
     length (filter (\<lambda>r. path r = p) rs) = 1"
proof (induction rs)
  case Nil
  then show ?case by simp
next
  case (Cons r0 rs)
  show ?case
  proof (cases "r \<in> set rs")
    case True
    with Cons have one: "length (filter (\<lambda>r. path r = p) rs) = 1" by simp
    have "path r0 \<noteq> p"
    proof
      assume "path r0 = p"
      with True Cons.prems(3,4) have "conflicts rs (path r0) (method_of r0)"
        by (auto simp add: conflicts_def)
      with Cons.prems(1) show False by simp
    qed
    with one show ?thesis by simp
  next
    case False
    with Cons.prems(2) have r0: "r0 = r" by simp
    with Cons.prems have "\<forall>r' \<in> set rs. path r' \<noteq> p"
      by (auto simp add: conflicts_def)
    then have "filter (\<lambda>r. path r = p) rs = []"
      by (simp add: filter_empty_conv)
    with r0 Cons.prems(3) show ?thesis by simp
  qed
qed

lemma no_conflicts_uniqueness:
  assumes nc: "no_conflicts rs" and vm: "valid_methods rs"
  shows "uniqueness_invariant rs"
proof -
  have "(count_bindings rs (\<lambda>r. path r = p \<and> method_of r = ''ANY'') = 0 \<and>
          (\<forall>m. count_bindings rs (\<lambda>r. path r = p \<and> method_of r = m) \<le> 1))
      \<or> (count_bindings rs (\<lambda>r. path r = p \<and> method_of r = ''ANY'') = 1 \<and>
          count_bindings rs (\<lambda>r. path r = p \<and> method_of r \<noteq> ''ANY'') = 0)" for p
  proof (cases "\<exists>r \<in> set rs. path r = p \<and> method_of r = ''ANY''")
    case True
    then obtain r where r: "r \<in> set rs" "path r = p" "method_of r = ''ANY''" by blast
    have all: "length (filter (\<lambda>r. path r = p) rs) = 1"
      using no_conflicts_any_alone [OF nc r] .
    have "filter (\<lambda>r. path r = p \<and> method_of r = ''ANY'') rs \<noteq> []"
      using r by (auto simp add: filter_empty_conv)
    then have "length (filter (\<lambda>r. path r = p \<and> method_of r = ''ANY'') rs) \<ge> 1"
      by (cases "filter (\<lambda>r. path r = p \<and> method_of r = ''ANY'') rs") auto
    with all filter_count_split [of "\<lambda>r. path r = p" rs "\<lambda>r. method_of r = ''ANY''"]
    have "length (filter (\<lambda>r. path r = p \<and> method_of r = ''ANY'') rs) = 1"
      and "length (filter (\<lambda>r. path r = p \<and> method_of r \<noteq> ''ANY'') rs) = 0"
      by arith+
    then show ?thesis unfolding count_bindings_def by blast
  next
    case False
    then have "filter (\<lambda>r. path r = p \<and> method_of r = ''ANY'') rs = []"
      by (auto simp add: filter_empty_conv)
    with no_conflicts_one_per_method [OF nc] show ?thesis
      by (simp add: count_bindings_def)
  qed
  with vm show ?thesis
    unfolding uniqueness_invariant_def by blast
qed

text \<open>A table with the invariant of the specification has no conflicts.\<close>

lemma filter_length_pos: "x \<in> set xs \<Longrightarrow> P x \<Longrightarrow> 0 < length (filter P xs)"
  by (induction xs) auto

lemma uniqueness_invariant_tail:
  assumes "uniqueness_invariant (r # rs)"
  shows "uniqueness_invariant rs"
proof -
  have vm: "valid_methods rs"
    using assms by (simp add: uniqueness_invariant_def valid_methods_def)
  have "(count_bindings rs (\<lambda>r. path r = p \<and> method_of r = ''ANY'') = 0 \<and>
          (\<forall>m. count_bindings rs (\<lambda>r. path r = p \<and> method_of r = m) \<le> 1))
      \<or> (count_bindings rs (\<lambda>r. path r = p \<and> method_of r = ''ANY'') = 1 \<and>
          count_bindings rs (\<lambda>r. path r = p \<and> method_of r \<noteq> ''ANY'') = 0)" for p
  proof -
    let ?any = "\<lambda>xs. length (filter (\<lambda>r. path r = p \<and> method_of r = ''ANY'') xs)"
    let ?other = "\<lambda>xs. length (filter (\<lambda>r. path r = p \<and> method_of r \<noteq> ''ANY'') xs)"
    let ?m = "\<lambda>m xs. length (filter (\<lambda>r. path r = p \<and> method_of r = m) xs)"
    have le: "?any rs \<le> ?any (r # rs)" "?other rs \<le> ?other (r # rs)"
      "?m m rs \<le> ?m m (r # rs)" for m
      by simp_all
    have sub: "?m m rs \<le> ?other rs" if "m \<noteq> ''ANY''" for m
    proof -
      have "?m m rs = length (filter (\<lambda>r. path r = p \<and> method_of r = m)
          (filter (\<lambda>r. path r = p \<and> method_of r \<noteq> ''ANY'') rs))"
        using that by (simp add: conj_commute cong: conj_cong)
      also have "\<dots> \<le> ?other rs" by (rule length_filter_le)
      finally show ?thesis .
    qed
    from assms have inv: "(?any (r # rs) = 0 \<and> (\<forall>m. ?m m (r # rs) \<le> 1))
        \<or> (?any (r # rs) = 1 \<and> ?other (r # rs) = 0)"
      unfolding uniqueness_invariant_def count_bindings_def by blast
    show ?thesis
    proof (cases "?any rs = 0")
      case True
      have "?m m rs \<le> 1" for m
      proof (cases "m = ''ANY''")
        case True
        with \<open>?any rs = 0\<close> show ?thesis by simp
      next
        case False
        from inv show ?thesis
        proof
          assume "?any (r # rs) = 0 \<and> (\<forall>m. ?m m (r # rs) \<le> 1)"
          then have "?m m (r # rs) \<le> 1" by blast
          with le(3) [of m] show ?thesis by linarith
        next
          assume "?any (r # rs) = 1 \<and> ?other (r # rs) = 0"
          with le(2) sub [OF False] show ?thesis by linarith
        qed
      qed
      with True show ?thesis unfolding count_bindings_def by blast
    next
      case False
      with inv le(1) have "?any (r # rs) = 1 \<and> ?other (r # rs) = 0" by linarith
      with le(1,2) False have "?any rs = 1 \<and> ?other rs = 0" by linarith
      then show ?thesis unfolding count_bindings_def by blast
    qed
  qed
  with vm show ?thesis unfolding uniqueness_invariant_def by blast
qed

lemma uniqueness_no_conflicts: "uniqueness_invariant rs \<Longrightarrow> no_conflicts rs"
proof (induction rs)
  case Nil
  show ?case by simp
next
  case (Cons r rs)
  have tail: "no_conflicts rs"
    using Cons.IH uniqueness_invariant_tail [OF Cons.prems] by blast
  have "\<not> conflicts rs (path r) (method_of r)"
  proof
    assume "conflicts rs (path r) (method_of r)"
    then obtain r' where r': "r' \<in> set rs" "path r' = path r"
      "method_of r' = method_of r \<or> method_of r' = ''ANY'' \<or> method_of r = ''ANY''"
      unfolding conflicts_def by blast
    let ?p = "path r"
    let ?any = "\<lambda>xs. length (filter (\<lambda>x. path x = ?p \<and> method_of x = ''ANY'') xs)"
    let ?other = "\<lambda>xs. length (filter (\<lambda>x. path x = ?p \<and> method_of x \<noteq> ''ANY'') xs)"
    let ?m = "\<lambda>m xs. length (filter (\<lambda>x. path x = ?p \<and> method_of x = m) xs)"
    from Cons.prems have inv: "(?any (r # rs) = 0 \<and> (\<forall>m. ?m m (r # rs) \<le> 1))
        \<or> (?any (r # rs) = 1 \<and> ?other (r # rs) = 0)"
      unfolding uniqueness_invariant_def count_bindings_def by blast
    from inv show False
    proof
      assume a: "?any (r # rs) = 0 \<and> (\<forall>m. ?m m (r # rs) \<le> 1)"
      have "method_of r \<noteq> ''ANY''"
        using a by auto
      moreover have "method_of r' \<noteq> ''ANY''"
      proof
        assume "method_of r' = ''ANY''"
        then have "0 < ?any rs" using r'(1,2) by (intro filter_length_pos [of r']) auto
        with a show False by (simp split: if_splits)
      qed
      ultimately have same: "method_of r' = method_of r" using r'(3) by blast
      have pos: "0 < ?m (method_of r) rs"
        using r'(1,2) same by (intro filter_length_pos [of r']) auto
      have "?m (method_of r) (r # rs) = Suc (?m (method_of r) rs)" by simp
      with pos have "2 \<le> ?m (method_of r) (r # rs)" by linarith
      moreover have "?m (method_of r) (r # rs) \<le> 1" using a by blast
      ultimately show False by linarith
    next
      assume b: "?any (r # rs) = 1 \<and> ?other (r # rs) = 0"
      have r_any: "method_of r = ''ANY''"
        using b by (auto split: if_splits)
      have "method_of r' = ''ANY''"
      proof (rule ccontr)
        assume "method_of r' \<noteq> ''ANY''"
        then have "0 < ?other rs" using r'(1,2) by (intro filter_length_pos [of r']) auto
        with b show False by (simp split: if_splits)
      qed
      then have pos: "0 < ?any rs" using r'(1,2) by (intro filter_length_pos [of r']) auto
      have "?any (r # rs) = Suc (?any rs)" using r_any by simp
      with pos b show False by linarith
    qed
  qed
  with tail show ?case by simp
qed

text \<open>
  Claim C4. Every shell that a program can reach with calls of \<open>get\<close>, \<open>post\<close>,
  \<open>put\<close>, \<open>delete\<close>, \<open>options\<close>, \<open>any\<close>, \<open>use\<close> and \<open>useStatic\<close>, whether the
  calls return or throw, has a table that satisfies the uniqueness
  invariant: for each path, either no ANY binding and at most one binding for
  each method, or exactly one ANY binding and no other binding.
\<close>

theorem reachable_uniqueness_invariant:
  "reachable this \<Longrightarrow> uniqueness_invariant (routes this)"
proof -
  assume r: "reachable this"
  have "no_conflicts (routes this)"
    using r by (rule reachable_no_conflicts)
  moreover have "valid_methods (routes this)"
    using r by (rule reachable_valid_methods)
  ultimately show ?thesis
    by (rule no_conflicts_uniqueness)
qed

theorem reachable_uniqueness_invariant_witness:
  "reachable (snd (register POST ''/a'' (text_listener ''two'')
       (snd (register GET ''/a'' (text_listener ''one'') new_shell)))) \<and>
   map method_of (routes (snd (register POST ''/a'' (text_listener ''two'')
       (snd (register GET ''/a'' (text_listener ''one'') new_shell))))) = [''GET'', ''POST''] \<and>
   uniqueness_invariant (routes (snd (register POST ''/a'' (text_listener ''two'')
       (snd (register GET ''/a'' (text_listener ''one'') new_shell)))))"
proof -
  have r: "reachable (snd (register POST ''/a'' (text_listener ''two'')
       (snd (register GET ''/a'' (text_listener ''one'') new_shell))))"
    unfolding new_shell_def by (intro reachable.intros)
  show ?thesis
    using r reachable_uniqueness_invariant [OF r]
    by (simp add: get_def post_def new_shell_def constructor_def)
qed

section \<open>Dispatch: proofs\<close>

lemma toLowerCase_toUpperCase_char:
  "(case map_of (zip ''ABCDEFGHIJKLMNOPQRSTUVWXYZ'' ''abcdefghijklmnopqrstuvwxyz'')
           (case map_of (zip ''abcdefghijklmnopqrstuvwxyz'' ''ABCDEFGHIJKLMNOPQRSTUVWXYZ'') c of
                 Some u \<Rightarrow> u | None \<Rightarrow> c) of Some l \<Rightarrow> l | None \<Rightarrow>
           (case map_of (zip ''abcdefghijklmnopqrstuvwxyz'' ''ABCDEFGHIJKLMNOPQRSTUVWXYZ'') c of
                 Some u \<Rightarrow> u | None \<Rightarrow> c)) =
   (case map_of (zip ''ABCDEFGHIJKLMNOPQRSTUVWXYZ'' ''abcdefghijklmnopqrstuvwxyz'') c of
      Some l \<Rightarrow> l | None \<Rightarrow> c)"
proof (cases "map_of (zip ''abcdefghijklmnopqrstuvwxyz'' ''ABCDEFGHIJKLMNOPQRSTUVWXYZ'') c")
  case None
  then show ?thesis by simp
next
  case (Some u)
  then have "(c, u) \<in> set (zip ''abcdefghijklmnopqrstuvwxyz'' ''ABCDEFGHIJKLMNOPQRSTUVWXYZ'')"
    by (rule map_of_SomeD)
  then have "(c, u) \<in> {(CHR ''a'', CHR ''A''), (CHR ''b'', CHR ''B''), (CHR ''c'', CHR ''C''),
     (CHR ''d'', CHR ''D''), (CHR ''e'', CHR ''E''), (CHR ''f'', CHR ''F''), (CHR ''g'', CHR ''G''),
     (CHR ''h'', CHR ''H''), (CHR ''i'', CHR ''I''), (CHR ''j'', CHR ''J''), (CHR ''k'', CHR ''K''),
     (CHR ''l'', CHR ''L''), (CHR ''m'', CHR ''M''), (CHR ''n'', CHR ''N''), (CHR ''o'', CHR ''O''),
     (CHR ''p'', CHR ''P''), (CHR ''q'', CHR ''Q''), (CHR ''r'', CHR ''R''), (CHR ''s'', CHR ''S''),
     (CHR ''t'', CHR ''T''), (CHR ''u'', CHR ''U''), (CHR ''v'', CHR ''V''), (CHR ''w'', CHR ''W''),
     (CHR ''x'', CHR ''X''), (CHR ''y'', CHR ''Y''), (CHR ''z'', CHR ''Z'')}"
    by simp
  then show ?thesis
    by (elim insertE emptyE) simp_all
qed

lemma toLowerCase_toUpperCase: "toLowerCase (toUpperCase s) = toLowerCase s"
  unfolding toLowerCase_def toUpperCase_def map_map comp_def
  by (rule map_cong [OF refl]) (rule toLowerCase_toUpperCase_char)

lemma route_loop_no_match:
  "\<forall>r \<in> set rs. \<not> (path r = p \<and> (method_of r = m \<or> method_of r = ''ANY'')) \<Longrightarrow>
     route_loop rs p m req info rv w = ([], rv, w)"
  by (induction rs) (auto simp add: equals_def)

lemma route_loop_match:
  "path r = p \<and> (method_of r = m \<or> method_of r = ''ANY'') \<Longrightarrow>
     route_loop (r # rs) p m req info rv w =
       (case callback r req info w of (rv', w') \<Rightarrow>
          (case route_loop rs p m req info rv' w' of (tr, res) \<Rightarrow>
             (Callback_call (path r) (method_of r) # tr, res)))"
  by (auto simp add: equals_def)

lemma route_loop_skip:
  "\<not> (path r = p \<and> (method_of r = m \<or> method_of r = ''ANY'')) \<Longrightarrow>
     route_loop (r # rs) p m req info rv w = route_loop rs p m req info rv w"
  by (auto simp add: equals_def)

lemma no_conflicts_match_alone:
  assumes "no_conflicts (r # rs)"
    and "path r = p \<and> (method_of r = m \<or> method_of r = ''ANY'')"
  shows "\<forall>r' \<in> set rs. \<not> (path r' = p \<and> (method_of r' = m \<or> method_of r' = ''ANY''))"
  using assms by (auto simp add: conflicts_def)

text \<open>On any table the loop calls the listener of every route that matches, in order.\<close>

lemma route_loop_calls_every_match:
  "fst (route_loop rs p m req info rv w) =
     map (\<lambda>r. Callback_call (path r) (method_of r))
       (filter (\<lambda>r. path r = p \<and> (method_of r = m \<or> method_of r = ''ANY'')) rs)"
  by (induction rs arbitrary: rv w) (auto simp add: equals_def split_beta)

text \<open>On a table without conflicts the loop calls the first match and nothing else.\<close>

lemma route_loop_resolve:
  "no_conflicts rs \<Longrightarrow>
     route_loop rs p m req info rv w =
       (case resolve rs p m of
          None \<Rightarrow> ([], rv, w)
        | Some r \<Rightarrow> ([Callback_call (path r) (method_of r)], callback r req info w))"
proof (induction rs)
  case Nil
  show ?case by (simp add: resolve_def)
next
  case (Cons r rs)
  show ?case
  proof (cases "path r = p \<and> (method_of r = m \<or> method_of r = ''ANY'')")
    case True
    have rest: "route_loop rs p m req info rv' w' = ([], rv', w')" for rv' w'
      by (rule route_loop_no_match) (rule no_conflicts_match_alone [OF Cons.prems True])
    have "resolve (r # rs) p m = Some r"
      using True by (simp add: resolve_def)
    then show ?thesis
      by (simp add: route_loop_match [OF True] rest split: prod.splits del: route_loop.simps)
  next
    case False
    have "resolve (r # rs) p m = resolve rs p m"
      using False by (auto simp add: resolve_def)
    then show ?thesis
      using Cons by (simp add: route_loop_skip [OF False] del: route_loop.simps)
  qed
qed

lemma no_conflicts_match_count:
  "no_conflicts rs \<Longrightarrow>
     length (filter (\<lambda>r. path r = p \<and> (method_of r = m \<or> method_of r = ''ANY'')) rs) \<le> 1"
proof (induction rs)
  case Nil
  show ?case by simp
next
  case (Cons r rs)
  show ?case
  proof (cases "path r = p \<and> (method_of r = m \<or> method_of r = ''ANY'')")
    case True
    have "filter (\<lambda>r. path r = p \<and> (method_of r = m \<or> method_of r = ''ANY'')) rs = []"
      using no_conflicts_match_alone [OF Cons.prems True] by (simp add: filter_empty_conv)
    with True show ?thesis by simp
  next
    case False
    with Cons show ?thesis by auto
  qed
qed

text \<open>
  Claim C1. Let the table be one that the shell can hold, built by the
  registration calls, or any table with the invariant of the specification.
  Then for every path and method at most one binding has that path (equality
  of strings, nothing normalised, no case folded) and that method or ANY; the
  loop of the dispatcher, which scans the bindings in insertion order, calls
  the listener of the first binding that matches and no other, and its
  payload is the one used; with no match it calls none. The request handler
  as a whole is the dispatcher of the specification, which resolves the path
  and the upper-cased method of the request to the first match.
\<close>

theorem listen_handler_first_match:
  "reachable this \<or> uniqueness_invariant (routes this) \<Longrightarrow>
     route_loop (routes this) p m req info rv w =
       (case resolve (routes this) p m of
          None \<Rightarrow> ([], rv, w)
        | Some r \<Rightarrow> ([Callback_call (path r) (method_of r)], callback r req info w)) \<and>
     listen_handler this req info w = spec_dispatch this req info w \<and>
     length (filter (\<lambda>r. path r = p \<and> (method_of r = m \<or> method_of r = ''ANY''))
               (routes this)) \<le> 1"
proof -
  assume "reachable this \<or> uniqueness_invariant (routes this)"
  then have nc: "no_conflicts (routes this)"
    using reachable_no_conflicts uniqueness_no_conflicts by blast
  have "listen_handler this req info w = spec_dispatch this req info w"
    unfolding listen_handler_def spec_dispatch_def Let_def
    by (simp add: route_loop_resolve [OF nc] new_Response_def
        split: option.splits prod.splits)
  then show ?thesis
    using no_conflicts_match_count [OF nc] route_loop_resolve [OF nc] by simp
qed

theorem listen_handler_first_match_witness:
  "reachable (snd (register ANY ''/b'' (text_listener ''two'')
       (snd (register GET ''/a'' (text_listener ''one'') new_shell)))) \<and>
   map (\<lambda>r. (path r, method_of r)) (routes (snd (register ANY ''/b'' (text_listener ''two'')
       (snd (register GET ''/a'' (text_listener ''one'') new_shell))))) =
     [(''/a'', ''GET''), (''/b'', ''ANY'')] \<and>
   listen_handler (snd (register ANY ''/b'' (text_listener ''two'')
       (snd (register GET ''/a'' (text_listener ''one'') new_shell))))
     \<lparr>url_pathname = ''/b'', req_method = ''Post'', req_body = []\<rparr> () 0 =
     ([Middleware_call, Callback_call ''/b'' ''ANY''],
      \<lparr>resp_body = Some ''two'', resp_status = 200, resp_headers = []\<rparr>, 1) \<and>
   fst (listen_handler (snd (register ANY ''/b'' (text_listener ''two'')
       (snd (register GET ''/a'' (text_listener ''one'') new_shell))))
     \<lparr>url_pathname = ''/a/'', req_method = ''GET'', req_body = []\<rparr> () 0) = [Middleware_call] \<and>
   fst (listen_handler (snd (register ANY ''/b'' (text_listener ''two'')
       (snd (register GET ''/a'' (text_listener ''one'') new_shell))))
     \<lparr>url_pathname = ''/A'', req_method = ''GET'', req_body = []\<rparr> () 0) = [Middleware_call]"
proof -
  have r: "reachable (snd (register ANY ''/b'' (text_listener ''two'')
       (snd (register GET ''/a'' (text_listener ''one'') new_shell))))"
    unfolding new_shell_def by (intro reachable.intros)
  show ?thesis
    using r listen_handler_first_match [OF disjI1 [OF r],
        of "''/b''" "''POST''" "\<lparr>url_pathname = ''/b'', req_method = ''Post'', req_body = []\<rparr>" "()"
           "\<lparr>body = None, init = None\<rparr>" 0]
    by (simp add: spec_dispatch_def resolve_def get_def any_def new_shell_def constructor_def
        toUpperCase_def text_listener_def new_Response_def listen_handler_def equals_def)
qed

text \<open>
  Claim C3. When no binding of the table has the path of the request together
  with its (upper-cased) method or ANY, the request handler calls no listener
  and answers with status 404, the single header \<open>Content-Type: text/html\<close>
  and the body \<open>Cannot <method in lower case> <path>\<close>. This holds for every
  table and every hook.
\<close>

theorem listen_handler_not_found:
  "\<forall>r \<in> set (routes this).
       \<not> (path r = url_pathname req \<and>
          (method_of r = toUpperCase (req_method req) \<or> method_of r = ''ANY'')) \<Longrightarrow>
     listen_handler this req info w =
       ([Middleware_call],
        \<lparr>resp_body = Some (''Cannot '' @ toLowerCase (req_method req) @ '' '' @ url_pathname req),
         resp_status = 404,
         resp_headers = [(''Content-Type'', ''text/html'')]\<rparr>,
        snd (middleware this req info w))"
  unfolding listen_handler_def Let_def
  by (simp add: route_loop_no_match new_Response_def toLowerCase_toUpperCase)

theorem listen_handler_not_found_witness:
  "list_all (\<lambda>r. \<not> (path r = ''/a'' \<and> (method_of r = ''POST'' \<or> method_of r = ''ANY'')))
     (routes (snd (get ''/a'' (text_listener ''one'') new_shell))) \<and>
   listen_handler (snd (get ''/a'' (text_listener ''one'') new_shell))
       \<lparr>url_pathname = ''/a'', req_method = ''Post'', req_body = []\<rparr> () 0 =
     ([Middleware_call],
      \<lparr>resp_body = Some ''Cannot post /a'', resp_status = 404,
       resp_headers = [(''Content-Type'', ''text/html'')]\<rparr>, 0)"
  using listen_handler_not_found [of "snd (get ''/a'' (text_listener ''one'') new_shell)"
      "\<lparr>url_pathname = ''/a'', req_method = ''Post'', req_body = []\<rparr>" "()" 0]
  by (simp add: get_def new_shell_def constructor_def toUpperCase_def toLowerCase_def)

text \<open>
  Claim C5. For every shell and every request, the trace of the request
  handler starts with the call of the middleware and holds no other call of
  it, whether or not a binding matches; the run is the run of the same shell
  without a hook, started in the world that the hook left, so the hook has
  run before any listener. What the hook returns is not read: two hooks that
  leave the same world give the same run. \<open>use\<close> replaces the hook: after two
  calls only the second hook is in the shell.
\<close>

theorem middleware_once_before_routing:
  "hd (fst (listen_handler this req info w)) = Middleware_call \<and>
   count_list (fst (listen_handler this req info w)) Middleware_call = 1 \<and>
   listen_handler this req info w =
     listen_handler (use (\<lambda>req info w. (None, w)) this) req info (snd (middleware this req info w)) \<and>
   (snd (h req info w) = snd (h' req info w) \<longrightarrow>
      listen_handler (use h this) req info w = listen_handler (use h' this) req info w) \<and>
   use h' (use h this) = use h' this \<and>
   middleware (use h' (use h this)) = h'"
proof -
  have no_mw: "Middleware_call \<notin> set (fst (route_loop rs p m req info rv w'))" for rs p m rv w'
    by (induction rs arbitrary: rv w') (simp_all add: split_beta)
  have tr: "fst (listen_handler this req info w) =
      Middleware_call # fst (route_loop (routes this) (url_pathname req)
        (toUpperCase (req_method req)) req info
        \<lparr>body = Some (''Cannot '' @ toLowerCase (toUpperCase (req_method req)) @ '' '' @
                  url_pathname req),
         init = Some \<lparr>headers = [(''Content-Type'', ''text/html'')], status = Some 404\<rparr>\<rparr>
        (snd (middleware this req info w)))"
    unfolding listen_handler_def Let_def by (simp add: split_beta)
  have "count_list (fst (listen_handler this req info w)) Middleware_call = 1"
    unfolding tr using no_mw by (simp add: count_list_0_iff)
  moreover have "hd (fst (listen_handler this req info w)) = Middleware_call"
    unfolding tr by simp
  ultimately show ?thesis
    by (simp add: listen_handler_def use_def Let_def)
qed

theorem middleware_once_before_routing_witness:
  "snd (counting_hook 5 (get_request ''/a'') () 0) = snd (silent_hook 5 (get_request ''/a'') () 0) \<and>
   listen_handler (use (counting_hook 5) (snd (get ''/a'' (text_listener ''one'') new_shell)))
       (get_request ''/a'') () 0 =
     listen_handler (use (silent_hook 5) (snd (get ''/a'' (text_listener ''one'') new_shell)))
       (get_request ''/a'') () 0 \<and>
   listen_handler (use (counting_hook 5) (use (counting_hook 3)
       (snd (get ''/a'' (text_listener ''one'') new_shell)))) (get_request ''/a'') () 0 =
     ([Middleware_call, Callback_call ''/a'' ''GET''],
      \<lparr>resp_body = Some ''one'', resp_status = 200, resp_headers = []\<rparr>, 6) \<and>
   listen_handler (use (counting_hook 5) (use (counting_hook 3)
       (snd (get ''/a'' (text_listener ''one'') new_shell)))) (get_request ''/b'') () 0 =
     ([Middleware_call],
      \<lparr>resp_body = Some ''Cannot get /b'', resp_status = 404,
       resp_headers = [(''Content-Type'', ''text/html'')]\<rparr>, 5)"
  using middleware_once_before_routing [of "snd (get ''/a'' (text_listener ''one'') new_shell)"
       "get_request ''/a''" "()" 0 "counting_hook 5" "silent_hook 5" ]
  by (simp add: listen_handler_def use_def get_def new_shell_def constructor_def
      get_request_def counting_hook_def silent_hook_def text_listener_def toUpperCase_def
      toLowerCase_def new_Response_def equals_def Let_def)

lemma never_used_middleware:
  "never_used this \<Longrightarrow> middleware this = (\<lambda>req info w. (None, w))"
proof (induction rule: never_used.induct)
  case (never_used_new config')
  show ?case by (simp add: constructor_def)
next
  case (never_used_register this v path' listener)
  then show ?case by (simp add: register_middleware del: register.simps)
next
  case (never_used_useStatic this join entries staticDirectory staticRoute)
  show ?case
  proof (rule useStatic_preserves(1) [where P = "\<lambda>s. middleware s = (\<lambda>req info w. (None, w))"])
    fix p l and s :: "('a, 'b, 'c) ServerShell"
    assume "middleware s = (\<lambda>req info w. (None, w))"
    then show "middleware (snd (get p l s)) = (\<lambda>req info w. (None, w))"
      using register_middleware [of GET p l s] by simp
  qed (rule never_used_useStatic.IH)
qed

text \<open>
  Claim C10. On a shell built without any call of \<open>use\<close>, the hook is the
  function that does nothing: it returns \<open>undefined\<close> and leaves the world as
  it was, the request handler goes on to the loop over the routes in that same
  world, and two such shells with the same table give the same run on the same
  request: the answer depends on the table and the request only.
\<close>

theorem default_middleware_noop:
  fixes this that :: "('i, 'w, 'v) ServerShell"
  shows "never_used this \<Longrightarrow>
     middleware this req info w = (None, w) \<and>
     listen_handler this req info w =
       (case route_loop (routes this) (url_pathname req) (toUpperCase (req_method req)) req info
               \<lparr>body = Some (''Cannot '' @ toLowerCase (req_method req) @ '' '' @ url_pathname req),
                init = Some \<lparr>headers = [(''Content-Type'', ''text/html'')], status = Some 404\<rparr>\<rparr> w of
          (tr, returnvalue, w') \<Rightarrow>
            (Middleware_call # tr, new_Response (body returnvalue) (init returnvalue), w')) \<and>
     (never_used that \<and> routes that = routes this \<longrightarrow>
        listen_handler that req info w = listen_handler this req info w)"
proof -
  assume nu: "never_used this"
  have "never_used that \<Longrightarrow> middleware that = middleware this"
    using never_used_middleware [OF nu] never_used_middleware [of that] by simp
  then show ?thesis
    using never_used_middleware [OF nu]
    by (auto simp add: listen_handler_def Let_def toLowerCase_toUpperCase)
qed

theorem default_middleware_noop_witness:
  "never_used (snd (get ''/a'' (text_listener ''one'') new_shell)) \<and>
   listen_handler (snd (get ''/a'' (text_listener ''one'') new_shell)) (get_request ''/a'') () 7 =
     ([Middleware_call, Callback_call ''/a'' ''GET''],
      \<lparr>resp_body = Some ''one'', resp_status = 200, resp_headers = []\<rparr>, 8)"
proof -
  have nu: "never_used (snd (get ''/a'' (text_listener ''one'') new_shell))"
    unfolding new_shell_def
    using never_used_register [OF never_used_new, of GET "''/a''" "text_listener ''one''" default_config]
    by simp
  show ?thesis
    using nu default_middleware_noop [OF nu, of "get_request ''/a''" "()" 7
        "snd (get ''/a'' (text_listener ''one'') new_shell)"]
    by (simp add: get_def new_shell_def constructor_def get_request_def text_listener_def
        toUpperCase_def new_Response_def equals_def)
qed

section \<open>Content types: proofs\<close>

lemma MIMEFromExt_case_None:
  "extension \<notin> set MIME_extensions \<Longrightarrow> MIMEFromExt_case extension = None"
  by (simp add: MIME_extensions_def MIMEFromExt_case_def)

lemma toUpperCase_extensions:
  "map toUpperCase MIME_extensions =
     [''HTML'', ''HTM'', ''CSS'', ''JS'', ''MJS'', ''TXT'', ''SVG'', ''APNG'', ''PNG'', ''GIF'',
      ''JPG'', ''JPEG'', ''ICO'', ''MP4'', ''MPEG'', ''OGV'', ''MP3'', ''OGA'', ''JSON'', ''XML'',
      ''ZIP'', ''7Z'', ''RAR'', ''TAR'', ''GZ'', ''PHP'', ''PDF'', ''SH'', ''OTF'', ''TTF'']"
  by (simp add: MIME_extensions_def toUpperCase_def)

lemma upper_case_not_labels:
  "list_all (\<lambda>e. e \<notin> set MIME_extensions)
     [''HTML'', ''HTM'', ''CSS'', ''JS'', ''MJS'', ''TXT'', ''SVG'', ''APNG'', ''PNG'', ''GIF'',
      ''JPG'', ''JPEG'', ''ICO'', ''MP4'', ''MPEG'', ''OGV'', ''MP3'', ''OGA'', ''JSON'', ''XML'',
      ''ZIP'', ''7Z'', ''RAR'', ''TAR'', ''GZ'', ''PHP'', ''PDF'', ''SH'', ''OTF'', ''TTF'']"
  by (simp add: MIME_extensions_def)

lemma MIMEFromExt_case_upper:
  assumes "extension \<in> set MIME_extensions"
  shows "MIMEFromExt_case (toUpperCase extension) = None"
proof -
  have "toUpperCase extension \<in> set (map toUpperCase MIME_extensions)"
    using assms by simp
  then have "toUpperCase extension \<notin> set MIME_extensions"
    unfolding toUpperCase_extensions using upper_case_not_labels
    unfolding list_all_iff by blast
  then show ?thesis by (rule MIMEFromExt_case_None)
qed

text \<open>
  Claim C8. \<open>MIMEFromExt\<close> is a function of the extension alone, defined on
  every string. Each extension of the enumeration gets the content type of
  its \<open>case\<close> (the enumeration of the source also has \<open>txt\<close>, \<open>apng\<close> and
  \<open>xml\<close>); every string that is not a case label, among them the upper-case
  spelling of each label, gets \<open>text/plain\<close> from the \<open>default\<close> branch, which
  writes one notice to the console and raises nothing.
\<close>

theorem MIMEFromExt_table:
  "map MIMEFromExt [''html'', ''htm'', ''css'', ''js'', ''mjs'', ''json''] =
     [''text/html'', ''text/html'', ''text/css'', ''text/javascript'', ''text/javascript'',
      ''application/json''] \<and>
   map MIMEFromExt [''png'', ''jpg'', ''jpeg'', ''gif'', ''svg'', ''ico''] =
     [''image/png'', ''image/jpeg'', ''image/jpeg'', ''image/gif'', ''image/svg+xml'',
      ''image/vnd.microsoft.icon''] \<and>
   map MIMEFromExt [''mp3'', ''oga'', ''mp4'', ''mpeg'', ''ogv''] =
     [''audio/mpeg'', ''audio/ogg'', ''video/mp4'', ''video/mpeg'', ''video/ogg''] \<and>
   map MIMEFromExt [''zip'', ''7z'', ''rar'', ''tar'', ''gz''] =
     [''application/zip'', ''application/x-7z-compressed'', ''application/vnd.rar'',
      ''application/x-tar'', ''application/gzip''] \<and>
   map MIMEFromExt [''otf'', ''ttf'', ''pdf'', ''sh'', ''php''] =
     [''font/otf'', ''font/ttf'', ''application/pdf'', ''application/x-sh'',
      ''application/x-httpd-php''] \<and>
   map MIMEFromExt [''txt'', ''apng'', ''xml''] =
     [''text/plain'', ''image/apng'', ''application/xml''] \<and>
   (extension \<notin> set MIME_extensions \<longrightarrow>
      MIMEFromExt extension = ''text/plain'' \<and> length (MIMEFromExt_console extension) = 1) \<and>
   (extension \<in> set MIME_extensions \<longrightarrow>
      MIMEFromExt_console extension = [] \<and>
      MIMEFromExt (toUpperCase extension) = ''text/plain'')"
proof -
  have known: "map MIMEFromExt_case MIME_extensions =
      map Some [''text/html'', ''text/html'', ''text/css'', ''text/javascript'', ''text/javascript'',
        ''text/plain'', ''image/svg+xml'', ''image/apng'', ''image/png'', ''image/gif'',
        ''image/jpeg'', ''image/jpeg'', ''image/vnd.microsoft.icon'', ''video/mp4'', ''video/mpeg'',
        ''video/ogg'', ''audio/mpeg'', ''audio/ogg'', ''application/json'', ''application/xml'',
        ''application/zip'', ''application/x-7z-compressed'', ''application/vnd.rar'',
        ''application/x-tar'', ''application/gzip'', ''application/x-httpd-php'',
        ''application/pdf'', ''application/x-sh'', ''font/otf'', ''font/ttf'']"
    by (simp add: MIME_extensions_def MIMEFromExt_case_def)
  have some: "extension \<in> set MIME_extensions \<Longrightarrow> \<exists>t. MIMEFromExt_case extension = Some t"
  proof -
    assume "extension \<in> set MIME_extensions"
    then have "MIMEFromExt_case extension \<in> set (map MIMEFromExt_case MIME_extensions)"
      by simp
    then show ?thesis unfolding known by auto
  qed
  have upper: "extension \<in> set MIME_extensions \<Longrightarrow> MIMEFromExt_case (toUpperCase extension) = None"
    by (rule MIMEFromExt_case_upper)
  have vals: "map MIMEFromExt [''html'', ''htm'', ''css'', ''js'', ''mjs'', ''json''] =
     [''text/html'', ''text/html'', ''text/css'', ''text/javascript'', ''text/javascript'',
      ''application/json'']"
    "map MIMEFromExt [''png'', ''jpg'', ''jpeg'', ''gif'', ''svg'', ''ico''] =
     [''image/png'', ''image/jpeg'', ''image/jpeg'', ''image/gif'', ''image/svg+xml'',
      ''image/vnd.microsoft.icon'']"
    "map MIMEFromExt [''mp3'', ''oga'', ''mp4'', ''mpeg'', ''ogv''] =
     [''audio/mpeg'', ''audio/ogg'', ''video/mp4'', ''video/mpeg'', ''video/ogg'']"
    "map MIMEFromExt [''zip'', ''7z'', ''rar'', ''tar'', ''gz''] =
     [''application/zip'', ''application/x-7z-compressed'', ''application/vnd.rar'',
      ''application/x-tar'', ''application/gzip'']"
    "map MIMEFromExt [''otf'', ''ttf'', ''pdf'', ''sh'', ''php''] =
     [''font/otf'', ''font/ttf'', ''application/pdf'', ''application/x-sh'',
      ''application/x-httpd-php'']"
    "map MIMEFromExt [''txt'', ''apng'', ''xml''] =
     [''text/plain'', ''image/apng'', ''application/xml'']"
    by (simp_all add: MIMEFromExt_def MIMEFromExt_case_def)
  show ?thesis
    using vals some upper
    by (auto simp add: MIMEFromExt_def MIMEFromExt_console_def MIMEFromExt_case_None)
qed

theorem MIMEFromExt_table_witness:
  "''xyz'' \<notin> set MIME_extensions \<and> MIMEFromExt ''xyz'' = ''text/plain'' \<and>
   ''html'' \<in> set MIME_extensions \<and> MIMEFromExt ''HTML'' = ''text/plain'' \<and>
   MIMEFromExt ''html'' = ''text/html''"
  using MIMEFromExt_table [of "''xyz''"] MIMEFromExt_table [of "''html''"]
  by (simp add: MIME_extensions_def toUpperCase_def)

section \<open>Static binding: the walk binds the files of the tree in order\<close>

lemma bind_files_append:
  "bind_files join (xs @ ys) d r this =
     (case bind_files join xs d r this of
        (tr, Inl e, this') \<Rightarrow> (tr, Inl e, this')
      | (tr, Inr u, this') \<Rightarrow>
          (case bind_files join ys d r this' of (tr', res) \<Rightarrow> (tr @ tr', res)))"
proof (induction xs arbitrary: this)
  case Nil
  show ?case by (simp split: prod.splits)
next
  case (Cons f fs)
  show ?case
    by (simp add: Cons.IH split: prod.splits sum.splits)
qed

lemma static_route_Cons:
  "static_route join r (n # dirs, name, bytes) = static_route join (join r n) (dirs, name, bytes)"
  by (simp add: static_route_def)

lemma static_path_Cons:
  "static_path join d (n # dirs, name, bytes) = static_path join (join d n) (dirs, name, bytes)"
  by (simp add: static_path_def)

lemma bind_files_Directory:
  "bind_files join (map (\<lambda>f. (n # fst f, snd f)) fs) d r this =
     bind_files join fs (join d n) (join r n) this"
proof (induction fs arbitrary: this)
  case Nil
  show ?case by simp
next
  case (Cons f fs)
  obtain dirs name bytes where f: "f = (dirs, name, bytes)" by (cases f) auto
  show ?case
    by (simp add: f Cons.IH static_route_Cons static_path_Cons split: prod.splits sum.splits)
qed

lemma useStatic_bind_files:
  "useStatic join entries d r this = bind_files join (tree_files entries) d r this"
  "useStatic_entry join entry d r this = bind_files join (tree_files_entry entry) d r this"
proof (induction join entries d r this and join entry d r this
    rule: useStatic_useStatic_entry.induct)
  case (1 join staticDirectory staticRoute this)
  show ?case by simp
next
  case (2 join entry rest staticDirectory staticRoute this)
  show ?case
  proof (cases "useStatic_entry join entry staticDirectory staticRoute this")
    case (fields tr res this')
    show ?thesis
    proof (cases res)
      case (Inl e)
      with fields "2.IH"(1) show ?thesis
        by (simp add: bind_files_append)
    next
      case (Inr u)
      with fields "2.IH"(1) "2.IH"(2) [OF fields [symmetric] refl Inr] show ?thesis
        by (simp add: bind_files_append)
    qed
  qed
next
  case (3 join name entries staticDirectory staticRoute this)
  then show ?case by (simp add: Let_def bind_files_Directory)
next
  case (4 join name bytes staticDirectory staticRoute this)
  show ?case
    by (simp add: Let_def static_route_def static_path_def split: prod.splits sum.splits)
next
  case (5 join name staticDirectory staticRoute this)
  show ?case by simp
qed

lemma get_cases:
  "get p l this =
     (if conflicts (routes this) p ''GET'' then (Inl (RouteAlreadyBoundError p), this)
      else (Inr (), this\<lparr>routes := routes this @
                      [\<lparr>path = p, method_of = ''GET'', callback = l\<rparr>]\<rparr>))"
  by (auto simp add: get_def forEach_cases conflicts_def)

lemma static_binding_eq:
  "\<lparr>path = static_route join r f, method_of = ''GET'',
     callback = static_listener (TextDecoder_decode (snd (snd f))) (file_extension (fst (snd f)))\<rparr> =
   static_binding join r f"
  by (cases f) (simp add: static_binding_def)

lemma path_static_binding: "path (static_binding join r f) = static_route join r f"
  by (cases f) (simp add: static_binding_def)

lemma conflicts_append_GET:
  "conflicts (rs @ [\<lparr>path = p, method_of = ''GET'', callback = l\<rparr>]) q ''GET'' \<longleftrightarrow>
     conflicts rs q ''GET'' \<or> q = p"
  by (auto simp add: conflicts_def)

text \<open>
  The run of the loop, exactly: with \<open>k\<close> the number of files bound before
  the first conflict, the first \<open>k\<close> bindings are appended, the files up to
  and with the one that conflicts are read once each, and the call throws for
  that file or returns when there is none.
\<close>

lemma bind_files_run:
  assumes "\<forall>q. conflicts (routes this) q ''GET'' \<longleftrightarrow> conflicts rs q ''GET'' \<or> q \<in> set seen"
  shows "bind_files join fs d r this =
     (let k = bound_count rs seen (map (static_route join r) fs)
      in (map (\<lambda>f. ReadFileSync (static_path join d f)) (take (Suc k) fs),
          if k = length fs then Inr ()
          else Inl (RouteAlreadyBoundError (static_route join r (fs ! k))),
          this\<lparr>routes := routes this @ map (static_binding join r) (take k fs)\<rparr>))"
  using assms
proof (induction fs arbitrary: this seen)
  case Nil
  show ?case by simp
next
  case (Cons f fs)
  let ?p = "static_route join r f"
  show ?case
  proof (cases "conflicts (routes this) ?p ''GET''")
    case True
    then have "conflicts rs ?p ''GET'' \<or> ?p \<in> set seen"
      using Cons.prems by blast
    then show ?thesis using True by (auto simp add: get_cases)
  next
    case False
    then have no: "\<not> (conflicts rs ?p ''GET'' \<or> ?p \<in> set seen)"
      using Cons.prems by blast
    define this1 where "this1 = this\<lparr>routes := routes this @ [static_binding join r f]\<rparr>"
    have "\<forall>q. conflicts (routes this1) q ''GET'' \<longleftrightarrow> conflicts rs q ''GET'' \<or> q \<in> set (?p # seen)"
      using Cons.prems conflicts_append_GET [of "routes this" ?p]
      by (auto simp add: this1_def static_binding_eq [symmetric])
    from Cons.IH [OF this]
    have run: "bind_files join fs d r this1 =
       (let k = bound_count rs (?p # seen) (map (static_route join r) fs)
        in (map (\<lambda>f. ReadFileSync (static_path join d f)) (take (Suc k) fs),
            if k = length fs then Inr ()
            else Inl (RouteAlreadyBoundError (static_route join r (fs ! k))),
            this1\<lparr>routes := routes this1 @ map (static_binding join r) (take k fs)\<rparr>))" .
    have step: "bind_files join (f # fs) d r this =
        (case bind_files join fs d r this1 of
           (tr, res) \<Rightarrow> (ReadFileSync (static_path join d f) # tr, res))"
      using False by (simp add: get_cases this1_def static_binding_eq)
    show ?thesis
      unfolding step run using no by (simp add: Let_def this1_def)
  qed
qed

lemma useStatic_run:
  "useStatic join entries d r this =
     (let fs = tree_files entries;
          k = bound_count (routes this) [] (map (static_route join r) fs)
      in (map (\<lambda>f. ReadFileSync (static_path join d f)) (take (Suc k) fs),
          if k = length fs then Inr ()
          else Inl (RouteAlreadyBoundError (static_route join r (fs ! k))),
          this\<lparr>routes := routes this @ map (static_binding join r) (take k fs)\<rparr>))"
  unfolding useStatic_bind_files Let_def
  using bind_files_run [of this "routes this" "[]" join "tree_files entries" d r]
  by (simp add: Let_def)

lemma static_listener_const:
  "static_listener contents extension req info w =
     (\<lparr>body = Some contents,
       init = Some \<lparr>headers = [(''Content-Type'', MIMEFromExt extension)], status = Some 200\<rparr>\<rparr>, w)"
  by (simp add: static_listener_def)

text \<open>
  What holds of every run: each file reached is read once, during the call
  and in the order of the walk; each binding appended is a GET binding whose
  listener returns, for every request and in every world, the text decoded
  from the bytes of its file, with status 200 and the content type of
  \<open>MIMEFromExt\<close>, and leaves the world as it is.
\<close>

lemma useStatic_reads_once_binds_get:
  "(case useStatic join entries d r this of (tr, res, this') \<Rightarrow>
      \<exists>k \<le> length (tree_files entries).
        routes this' = routes this @ map (static_binding join r) (take k (tree_files entries)) \<and>
        tr = map (\<lambda>f. ReadFileSync (static_path join d f)) (take (Suc k) (tree_files entries)) \<and>
        (res = Inr () \<longleftrightarrow> k = length (tree_files entries))) \<and>
   method_of (static_binding join r (dirs, name, bytes)) = ''GET'' \<and>
   callback (static_binding join r (dirs, name, bytes)) req info w =
     (\<lparr>body = Some (TextDecoder_decode bytes),
       init = Some \<lparr>headers = [(''Content-Type'', MIMEFromExt (file_extension name))],
                    status = Some 200\<rparr>\<rparr>, w)"
proof -
  have le: "bound_count rs seen ps \<le> length ps" for rs :: "('a, 'b) Route list" and seen ps
    by (induction ps arbitrary: seen) auto
  show ?thesis
    unfolding useStatic_run Let_def
    using le [of "routes this" "[]" "map (static_route join r) (tree_files entries)"]
    by (auto simp add: static_binding_def static_listener_const
        intro!: exI [of _ "bound_count (routes this) [] (map (static_route join r) (tree_files entries))"])
qed

text \<open>
  The decoder keeps a text in ASCII and replaces what is not UTF-8: the text
  that the listener holds is not the contents of such a file.
\<close>

lemma TextDecoder_decode_examples:
  "TextDecoder_decode ''<h1>home</h1>'' = ''<h1>home</h1>'' \<and>
   TextDecoder_decode [CHR 0xEF, CHR 0xBB, CHR 0xBF, CHR ''A''] = ''A'' \<and>
   TextDecoder_decode [CHR 0xE2, CHR 0x82, CHR 0xAC] = [CHR 0xE2, CHR 0x82, CHR 0xAC] \<and>
   TextDecoder_decode [CHR 0xE2, CHR 0x82] = replacement \<and>
   TextDecoder_decode [CHR 0xC0, CHR 0xAF] = replacement @ replacement"
  by (simp add: TextDecoder_decode_def replacement_def)

text \<open>
  Claim C9 at a file that is not text in UTF-8. \<open>useStatic\<close> reads the file
  \<open>raw.png\<close>, of the four bytes ff fe 41 80, once and binds a GET route for
  it; the listener answers with status 200 and \<open>image/png\<close>, but the body it
  returns is what \<open>TextDecoder\<close> made of the bytes at bind time, ten bytes
  with U+FFFD in the place of ff, fe and 80, and not the contents of the file.
\<close>

theorem static_body_is_decoded_text:
  "fst (useStatic posix_join [File ''raw.png'' [CHR 0xFF, CHR 0xFE, CHR 0x41, CHR 0x80]]
          ''./static'' ''/site'' new_shell) = [ReadFileSync ''static/raw.png''] \<and>
   listen_handler
       (snd (snd (useStatic posix_join [File ''raw.png'' [CHR 0xFF, CHR 0xFE, CHR 0x41, CHR 0x80]]
          ''./static'' ''/site'' new_shell)))
       (get_request ''/site/raw.png'') () 0 =
     ([Middleware_call, Callback_call ''/site/raw.png'' ''GET''],
      \<lparr>resp_body = Some [CHR 0xEF, CHR 0xBF, CHR 0xBD, CHR 0xEF, CHR 0xBF, CHR 0xBD, CHR 0x41,
                         CHR 0xEF, CHR 0xBF, CHR 0xBD],
       resp_status = 200,
       resp_headers = [(''Content-Type'', ''image/png'')]\<rparr>, 0) \<and>
   [CHR 0xEF, CHR 0xBF, CHR 0xBD, CHR 0xEF, CHR 0xBF, CHR 0xBD, CHR 0x41, CHR 0xEF, CHR 0xBF, CHR 0xBD]
     \<noteq> [CHR 0xFF, CHR 0xFE, CHR 0x41, CHR 0x80]"
  by (simp add: new_shell_def constructor_def get_def posix_join_def posix_normalize_def
      file_name_def file_extension_def replaceAll_def Let_def listen_handler_def
      get_request_def toUpperCase_def equals_def static_listener_def new_Response_def
      MIMEFromExt_def MIMEFromExt_case_def TextDecoder_decode_def replacement_def)

section \<open>Names, extensions and routes: proofs\<close>

lemma split_not_Nil: "split c s \<noteq> []"
  by (induction s) (auto split: list.splits)

lemma split_no_sep: "c \<notin> set s \<Longrightarrow> split c s = [s]"
  by (induction s) auto

lemma split_sep: "c \<notin> set s \<Longrightarrow> split c (s @ c # t) = s # split c t"
  by (induction s) auto

lemma Array_join_split: "Array_join [c] (split c s) = s"
proof (induction s)
  case Nil
  show ?case by simp
next
  case (Cons a s)
  obtain seg segs where sp: "split c s = seg # segs"
    using split_not_Nil [of c s] by (cases "split c s") auto
  show ?case
  proof (cases "a = c")
    case True
    with Cons sp show ?thesis by simp
  next
    case False
    with Cons sp show ?thesis by (cases segs) auto
  qed
qed

lemma Array_join_snoc:
  "xs \<noteq> [] \<Longrightarrow> Array_join sep (xs @ [x]) = Array_join sep xs @ sep @ x"
  by (induction sep xs rule: Array_join.induct) auto

lemma last_split_no_sep: "c \<notin> set (last (split c s))"
  by (induction s) (auto split: list.splits simp add: split_not_Nil)

text \<open>
  A name with a dot is cut at its last dot: the extension has no dot and the
  name, a dot and the extension make up the file name again.
\<close>

lemma file_name_extension:
  assumes "CHR ''.'' \<in> set n"
  shows "file_name n @ ''.'' @ file_extension n = n"
    and "CHR ''.'' \<notin> set (file_extension n)"
proof -
  let ?sp = "split CHR ''.'' n"
  have ne: "?sp \<noteq> []" by (rule split_not_Nil)
  have "butlast ?sp \<noteq> []"
  proof
    assume "butlast ?sp = []"
    with ne have "?sp = [last ?sp]"
      by (metis append_butlast_last_id append_Nil)
    then have "Array_join ''.'' ?sp = last ?sp" by (metis Array_join.simps(2))
    then have "n = last ?sp" by (simp add: Array_join_split)
    with last_split_no_sep [of "CHR ''.''" n] assms show False by simp
  qed
  then have "Array_join ''.'' (butlast ?sp @ [last ?sp]) =
      Array_join ''.'' (butlast ?sp) @ ''.'' @ last ?sp"
    by (rule Array_join_snoc)
  with ne have "Array_join ''.'' ?sp = Array_join ''.'' (butlast ?sp) @ ''.'' @ last ?sp"
    by simp
  then show "file_name n @ ''.'' @ file_extension n = n"
    by (simp add: file_name_def file_extension_def Array_join_split)
  show "CHR ''.'' \<notin> set (file_extension n)"
    by (simp add: file_extension_def last_split_no_sep)
qed

text \<open>A name without a dot is its own extension, and its name part is empty.\<close>

lemma file_extension_no_dot:
  "CHR ''.'' \<notin> set n \<Longrightarrow> file_extension n = n \<and> file_name n = []"
  by (simp add: file_extension_def file_name_def split_no_sep)

lemma index_html_iff:
  "file_name n = ''index'' \<and> file_extension n = ''html'' \<longleftrightarrow> n = ''index.html''"
proof
  assume a: "file_name n = ''index'' \<and> file_extension n = ''html''"
  have "CHR ''.'' \<in> set n"
  proof (rule ccontr)
    assume "CHR ''.'' \<notin> set n"
    then have "file_name n = []" by (simp add: file_extension_no_dot)
    with a show False by simp
  qed
  from file_name_extension(1) [OF this] a show "n = ''index.html''" by simp
next
  assume "n = ''index.html''"
  then show "file_name n = ''index'' \<and> file_extension n = ''html''"
    by (simp add: file_name_def file_extension_def)
qed

text \<open>
  Claim C7 at a file without a dot whose name is a case label of
  \<open>MIMEFromExt\<close>. The claim gives the file \<open>json\<close> no extension and the content
  type \<open>text/plain\<close>; \<open>useStatic\<close> takes the whole name as the extension and
  serves the file as \<open>application/json\<close>. The earlier copy of the module finds
  no extension for the same name.
\<close>

theorem no_dot_file_served_by_name:
  "CHR ''.'' \<notin> set ''json'' \<and>
   file_name ''json'' = [] \<and>
   file_extension ''json'' = ''json'' \<and>
   listen_handler
       (snd (snd (useStatic posix_join [File ''json'' ''{}''] ''./static'' ''/site'' new_shell)))
       (get_request ''/site/json'') () 0 =
     ([Middleware_call, Callback_call ''/site/json'' ''GET''],
      \<lparr>resp_body = Some ''{}'', resp_status = 200,
       resp_headers = [(''Content-Type'', ''application/json'')]\<rparr>, 0) \<and>
   file_extension_part_000 ''json'' = None"
  by (simp add: new_shell_def constructor_def get_def posix_join_def posix_normalize_def
      file_name_def file_extension_def replaceAll_def Let_def listen_handler_def
      get_request_def toUpperCase_def equals_def static_listener_def new_Response_def
      MIMEFromExt_def MIMEFromExt_case_def file_extension_part_000_def
      TextDecoder_decode_def replacement_def)

section \<open>Routes of static files: proofs\<close>

lemma split_Array_join:
  "segs \<noteq> [] \<Longrightarrow> list_all (\<lambda>s. c \<notin> set s) segs \<Longrightarrow> split c (Array_join [c] segs) = segs"
proof (induction "[c]" segs rule: Array_join.induct)
  case 1
  then show ?case by simp
next
  case (2 x)
  then show ?case by (simp add: split_no_sep)
next
  case (3 x y ys)
  then show ?case using split_sep [of c x "Array_join [c] (y # ys)"] by simp
qed

lemma normalizeString_good:
  "list_all good_name gs \<Longrightarrow>
     normalizeString allow res (gs @ rest) = normalizeString allow (res @ gs) rest"
  by (induction gs arbitrary: res) (auto simp add: good_name_def)

lemma good_name_no_slash: "list_all good_name segs \<Longrightarrow> list_all (\<lambda>s. CHR ''/'' \<notin> set s) segs"
  by (induction segs) (auto simp add: good_name_def)

text \<open>The segments of an absolute path with one more name, once normalised.\<close>

lemma normalizeString_abs_path:
  assumes "list_all good_name segs" and "rest \<noteq> []"
    and "list_all (\<lambda>s. CHR ''/'' \<notin> set s) rest"
  shows "normalizeString False [] (split CHR ''/'' (abs_path segs @ ''/'' @ Array_join ''/'' rest)) =
     normalizeString False segs rest"
proof (cases "segs = []")
  case True
  have "split CHR ''/'' (abs_path segs @ ''/'' @ Array_join ''/'' rest) = [] # [] # rest"
    using True assms(2,3) split_Array_join [of rest "CHR ''/''"] by (simp add: abs_path_def)
  then show ?thesis using True by simp
next
  case False
  have j: "Array_join ''/'' segs @ ''/'' @ Array_join ''/'' rest = Array_join ''/'' (segs @ rest)"
    using False assms(2)
    by (induction "''/''" segs rule: Array_join.induct) (auto simp add: neq_Nil_conv)
  have "list_all (\<lambda>s. CHR ''/'' \<notin> set s) (segs @ rest)"
    using assms(1,3) good_name_no_slash by simp
  then have "split CHR ''/'' (Array_join ''/'' (segs @ rest)) = segs @ rest"
    using False split_Array_join [of "segs @ rest" "CHR ''/''"] by simp
  then have "split CHR ''/'' (abs_path segs @ ''/'' @ Array_join ''/'' rest) = [] # segs @ rest"
    using j by (simp add: abs_path_def)
  then show ?thesis
    using normalizeString_good [OF assms(1), of False "[]" rest] by simp
qed

lemma abs_path_not_Nil: "abs_path segs \<noteq> []"
  by (simp add: abs_path_def)

lemma posix_join_abs_path:
  assumes "list_all good_name segs" and "good_name n"
  shows "posix_join (abs_path segs) n = abs_path (segs @ [n])"
proof -
  have n: "n \<noteq> []" and slash: "CHR ''/'' \<notin> set n"
    using assms(2) by (simp_all add: good_name_def)
  have "last n \<in> set n" using n by (rule last_in_set)
  with slash have l: "last n \<noteq> CHR ''/''" by metis
  have ns: "normalizeString False [] (split CHR ''/'' (abs_path segs @ ''/'' @ n)) = segs @ [n]"
    using normalizeString_abs_path [OF assms(1), of "[n]"] assms(2)
      normalizeString_good [of "[n]" False segs "[]"]
    by (simp add: good_name_def)
  have nonempty: "Array_join ''/'' (segs @ [n]) \<noteq> []"
    using n Array_join_snoc [of segs "''/''" n] by (cases "segs = []") simp_all
  have "posix_normalize (abs_path segs @ ''/'' @ n) = abs_path (segs @ [n])"
    using n l ns nonempty by (simp add: posix_normalize_def abs_path_def Let_def)
  then show ?thesis
    using n by (simp add: posix_join_def abs_path_not_Nil)
qed

lemma posix_join_abs_path_parent:
  assumes "list_all good_name segs" and "good_name n"
  shows "posix_join (abs_path (segs @ [n])) ''..'' = abs_path segs"
proof -
  have g: "list_all good_name (segs @ [n])" using assms by simp
  have "normalizeString False [] (split CHR ''/'' (abs_path (segs @ [n]) @ ''/'' @ ''..'')) =
      normalizeString False (segs @ [n]) [''..'']"
    using normalizeString_abs_path [OF g, of "[''..'']"] by simp
  also have "\<dots> = segs"
    using assms(2) by (simp add: good_name_def)
  finally have ns: "normalizeString False []
      (split CHR ''/'' (abs_path (segs @ [n]) @ ''/'' @ ''..'')) = segs" .
  have "posix_normalize (abs_path (segs @ [n]) @ ''/'' @ ''..'') = abs_path segs"
    using ns by (simp add: posix_normalize_def abs_path_def Let_def)
  then show ?thesis
    by (simp add: posix_join_def abs_path_not_Nil)
qed

lemma foldl_posix_join_abs_path:
  "list_all good_name segs \<Longrightarrow> list_all good_name ns \<Longrightarrow>
     foldl posix_join (abs_path segs) ns = abs_path (segs @ ns)"
proof (induction ns arbitrary: segs)
  case Nil
  show ?case by simp
next
  case (Cons n ns)
  then show ?case using Cons.IH [of "segs @ [n]"] by (simp add: posix_join_abs_path)
qed

text \<open>
  On a POSIX host the route of a file below an absolute prefix is the text
  that the specification gives: the segments of the prefix, the directories
  on the way and the file name, without the file name for \<open>index.html\<close>.
\<close>

lemma joined_route_posix:
  assumes "list_all good_name segs" and "good_file (dirs, name, bytes)"
  shows "joined_route posix_join (abs_path segs) (dirs, name, bytes) =
     claimed_route segs (dirs, name, bytes)"
proof -
  have g: "list_all good_name dirs" "good_name name"
    using assms(2) by (simp_all add: good_file_def)
  have f: "foldl posix_join (abs_path segs) (dirs @ [name]) = abs_path ((segs @ dirs) @ [name])"
    using foldl_posix_join_abs_path [OF assms(1), of "dirs @ [name]"] g by simp
  have p: "posix_join (abs_path ((segs @ dirs) @ [name])) ''..'' = abs_path (segs @ dirs)"
    using posix_join_abs_path_parent [of "segs @ dirs" name] assms(1) g by simp
  show ?thesis
  proof (cases "name = ''index.html''")
    case True
    then show ?thesis
      unfolding joined_route_def claimed_route_def Let_def prod.case f p by simp
  next
    case False
    then show ?thesis
      unfolding joined_route_def claimed_route_def Let_def prod.case f by simp
  qed
qed

text \<open>\<open>replaceAll\<close> of the backslash by \<open>/\<close> is what the specification asks for.\<close>

lemma replaceAll_forward_slashes: "replaceAll (CHR 0x5C) CHR ''/'' s = forward_slashes s"
  by (simp add: replaceAll_def forward_slashes_def)

lemma forward_slashes_no_backslash: "CHR 0x5C \<notin> set (forward_slashes s)"
  by (auto simp add: forward_slashes_def)

lemma forward_slashes_id: "CHR 0x5C \<notin> set s \<Longrightarrow> forward_slashes s = s"
  by (induction s) (auto simp add: forward_slashes_def)

lemma static_route_joined: "static_route join prefix f = joined_route join prefix f"
  by (cases f)
    (simp add: static_route_def joined_route_def index_html_iff replaceAll_forward_slashes)

lemma bound_count_le: "bound_count rs seen ps \<le> length ps"
  by (induction ps arbitrary: seen) auto

section \<open>Routes of static files on a Windows host: proofs\<close>

lemma split_separators_free:
  "\<forall>c \<in> set s. \<not> isPathSeparator c \<Longrightarrow> split_separators s = [s]"
  by (induction s) auto

lemma split_separators_sep:
  "\<forall>c \<in> set s. \<not> isPathSeparator c \<Longrightarrow> isPathSeparator c \<Longrightarrow>
     split_separators (s @ c # t) = s # split_separators t"
  by (induction s) auto

lemma split_separators_Array_join:
  "segs \<noteq> [] \<Longrightarrow> list_all (\<lambda>s. \<forall>c \<in> set s. \<not> isPathSeparator c) segs \<Longrightarrow>
   isPathSeparator sep \<Longrightarrow> isPathSeparator c \<Longrightarrow>
     split_separators (Array_join [sep] segs @ c # t) = segs @ split_separators t"
proof (induction "[sep]" segs rule: Array_join.induct)
  case 1
  then show ?case by simp
next
  case (2 x)
  then show ?case by (simp add: split_separators_sep)
next
  case (3 x y ys)
  then show ?case
    using split_separators_sep [of x sep "Array_join [sep] (y # ys) @ c # t"] by simp
qed

lemma windows_name_free: "windows_name n \<Longrightarrow> \<forall>c \<in> set n. \<not> isPathSeparator c"
  by (auto simp add: windows_name_def good_name_def isPathSeparator_def)

lemma windows_names_free:
  "list_all windows_name segs \<Longrightarrow> list_all (\<lambda>s. \<forall>c \<in> set s. \<not> isPathSeparator c) segs"
  by (induction segs) (auto simp add: windows_name_free)

lemma windows_names_good: "list_all windows_name segs \<Longrightarrow> list_all good_name segs"
  by (induction segs) (auto simp add: windows_name_def)

lemma Array_join_hd:
  "segs \<noteq> [] \<Longrightarrow> hd segs \<noteq> [] \<Longrightarrow> Array_join sep segs = hd (hd segs) # tl (Array_join sep segs)"
  by (induction sep segs rule: Array_join.induct) auto

lemma Array_join_hd_free:
  assumes "segs \<noteq> []" and "list_all windows_name segs"
  shows "\<exists>c rest. Array_join sep segs = c # rest \<and> \<not> isPathSeparator c"
proof -
  obtain s ss where segs: "segs = s # ss" using assms(1) by (cases segs) auto
  with assms(2) have s: "windows_name s" by simp
  then obtain c cs where sc: "s = c # cs" by (cases s) (auto simp add: windows_name_def good_name_def)
  with s have "\<not> isPathSeparator c" using windows_name_free [OF s] by simp
  moreover have "Array_join sep segs = c # tl (Array_join sep segs)"
    using Array_join_hd [of segs sep] segs sc by simp
  ultimately show ?thesis by blast
qed

text \<open>
  Normalising a path that starts with one separator and goes on with names:
  the names are the segments, and the result is written with backslashes.
\<close>

lemma win32_normalize_rooted:
  assumes sep: "isPathSeparator s" and after: "after = c # rest" and c: "\<not> isPathSeparator c"
    and lst: "\<not> isPathSeparator (last after)"
  shows "win32_normalize (s # after) =
     [CHR 0x5C] @ Array_join [CHR 0x5C] (normalizeString False [] (split_separators after))"
  using assms by (simp add: win32_normalize_def win32_root_def Let_def)

lemma win32_join_rooted:
  assumes sep: "isPathSeparator s" and segs: "list_all windows_name segs"
    and nt: "t \<noteq> []" "\<forall>c \<in> set t. \<not> isPathSeparator c"
  shows "win32_join ([s] @ Array_join [s] segs) t =
     [CHR 0x5C] @ Array_join [CHR 0x5C] (normalizeString False segs [t])"
proof (cases "segs = []")
  case True
  obtain c rest where t: "t = c # rest" using nt(1) by (cases t) auto
  with nt(2) have c: "\<not> isPathSeparator c" by simp
  have bs: "isPathSeparator (CHR 0x5C)" by (simp add: isPathSeparator_def)
  have lt: "\<not> isPathSeparator (last t)" using nt last_in_set [of t] by blast
  have "win32_join [s] t = win32_normalize (CHR 0x5C # t)"
    using sep bs c t by (simp add: win32_join_def Let_def)
  also have "\<dots> = [CHR 0x5C] @ Array_join [CHR 0x5C]
      (normalizeString False [] (split_separators t))"
    using win32_normalize_rooted [OF bs t c lt] .
  finally show ?thesis
    using True nt by (simp add: split_separators_free)
next
  case False
  obtain c rest where hd: "Array_join [s] segs = c # rest" "\<not> isPathSeparator c"
    using Array_join_hd_free [OF False segs] by blast
  have bs: "isPathSeparator (CHR 0x5C)" by (simp add: isPathSeparator_def)
  have lt: "\<not> isPathSeparator (last t)" using nt last_in_set [of t] by blast
  let ?after = "Array_join [s] segs @ CHR 0x5C # t"
  have after: "?after = c # (rest @ CHR 0x5C # t)" using hd by simp
  have lb: "\<not> isPathSeparator (last ?after)" using lt nt(1) by simp
  have "win32_join ([s] @ Array_join [s] segs) t = win32_normalize (s # ?after)"
    using sep hd nt(1) by (simp add: win32_join_def Let_def)
  also have "\<dots> = [CHR 0x5C] @ Array_join [CHR 0x5C]
      (normalizeString False [] (split_separators ?after))"
    using win32_normalize_rooted [OF sep after hd(2) lb] .
  also have "split_separators ?after = segs @ [t]"
    using split_separators_Array_join [OF False windows_names_free [OF segs] sep bs, of t] nt
    by (simp add: split_separators_free)
  also have "normalizeString False [] (segs @ [t]) = normalizeString False segs [t]"
    using normalizeString_good [OF windows_names_good [OF segs], of False "[]" "[t]"] by simp
  finally show ?thesis .
qed

lemma win32_join_name:
  assumes "isPathSeparator s" and "list_all windows_name segs" and "windows_name n"
  shows "win32_join ([s] @ Array_join [s] segs) n = [CHR 0x5C] @ Array_join [CHR 0x5C] (segs @ [n])"
  using win32_join_rooted [OF assms(1,2), of n] assms(3) windows_name_free [OF assms(3)]
  by (simp add: windows_name_def good_name_def)

lemma win32_join_parent:
  assumes "isPathSeparator s" and "list_all windows_name segs" and "windows_name n"
  shows "win32_join ([s] @ Array_join [s] (segs @ [n])) ''..'' =
     [CHR 0x5C] @ Array_join [CHR 0x5C] segs"
  using win32_join_rooted [OF assms(1), of "segs @ [n]" "''..''"] assms(2,3)
  by (simp add: windows_name_def good_name_def isPathSeparator_def)

lemma foldl_win32_join:
  "isPathSeparator s \<Longrightarrow> list_all windows_name segs \<Longrightarrow> list_all windows_name ns \<Longrightarrow>
   ns \<noteq> [] \<Longrightarrow>
     foldl win32_join ([s] @ Array_join [s] segs) ns = [CHR 0x5C] @ Array_join [CHR 0x5C] (segs @ ns)"
proof (induction ns arbitrary: s segs)
  case Nil
  then show ?case by simp
next
  case (Cons n ns)
  have bs: "isPathSeparator (CHR 0x5C)" by (simp add: isPathSeparator_def)
  have step: "win32_join ([s] @ Array_join [s] segs) n =
      [CHR 0x5C] @ Array_join [CHR 0x5C] (segs @ [n])"
    using win32_join_name [of s segs n] Cons.prems by simp
  show ?case
  proof (cases "ns = []")
    case True
    with step show ?thesis by simp
  next
    case False
    have "foldl win32_join ([CHR 0x5C] @ Array_join [CHR 0x5C] (segs @ [n])) ns =
        [CHR 0x5C] @ Array_join [CHR 0x5C] ((segs @ [n]) @ ns)"
      using Cons.IH [OF bs _ _ False, of "segs @ [n]"] Cons.prems by simp
    with step show ?thesis by simp
  qed
qed

lemma forward_slashes_append: "forward_slashes (a @ b) = forward_slashes a @ forward_slashes b"
  by (simp add: forward_slashes_def)

lemma forward_slashes_Array_join:
  "forward_slashes (Array_join [CHR 0x5C] segs) = forward_slashes (Array_join ''/'' segs)"
  by (induction "[CHR 0x5C]" segs rule: Array_join.induct)
    (simp_all add: forward_slashes_append, simp_all add: forward_slashes_def)

text \<open>
  On a Windows host the paths are joined with backslashes, and the route of a
  file below an absolute prefix is the same text as on a POSIX host.
\<close>

lemma joined_route_win32:
  assumes "list_all windows_name segs" and "windows_file (dirs, name, bytes)"
  shows "joined_route win32_join (abs_path segs) (dirs, name, bytes) =
     claimed_route segs (dirs, name, bytes)"
proof -
  have g: "list_all windows_name dirs" "windows_name name"
    using assms(2) by (simp_all add: windows_file_def)
  have sl: "isPathSeparator (CHR ''/'')" by (simp add: isPathSeparator_def)
  have f: "foldl win32_join (abs_path segs) (dirs @ [name]) =
      [CHR 0x5C] @ Array_join [CHR 0x5C] ((segs @ dirs) @ [name])"
    using foldl_win32_join [OF sl assms(1), of "dirs @ [name]"] g by (simp add: abs_path_def)
  have bs: "isPathSeparator (CHR 0x5C)" by (simp add: isPathSeparator_def)
  have p: "win32_join ([CHR 0x5C] @ Array_join [CHR 0x5C] ((segs @ dirs) @ [name])) ''..'' =
      [CHR 0x5C] @ Array_join [CHR 0x5C] (segs @ dirs)"
    using win32_join_parent [OF bs, of "segs @ dirs" name] assms(1) g by simp
  have one: "forward_slashes [CHR 0x5C] = forward_slashes ''/''"
    by (simp add: forward_slashes_def)
  have fs: "forward_slashes ([CHR 0x5C] @ Array_join [CHR 0x5C] xs) = forward_slashes (abs_path xs)"
    for xs
    unfolding abs_path_def forward_slashes_append forward_slashes_Array_join one by (rule refl)
  show ?thesis
  proof (cases "name = ''index.html''")
    case True
    then show ?thesis
      unfolding joined_route_def claimed_route_def Let_def prod.case f p
      using fs [of "segs @ dirs"] by simp
  next
    case False
    then show ?thesis
      unfolding joined_route_def claimed_route_def Let_def prod.case f
      using fs [of "(segs @ dirs) @ [name]"] by simp
  qed
qed

text \<open>
  Claim C6. On every host, for every tree, prefix and table, the routes that
  \<open>useStatic\<close> binds are, file by file in the order of the walk, the route
  prefix joined with the names of the directories down to the file and with
  the name of the file, extension included, and only for a file named
  \<open>index.html\<close> the parent of that path; in each route every backslash has
  become \<open>/\<close>, so that no bound route holds a backslash. The files are bound
  up to the first one whose route is taken already, for which the call throws;
  otherwise the call returns and every regular file of the tree has its
  route. When the prefix is an absolute path written from its segments and
  the names of the tree are names that a directory entry can have, then on a
  POSIX host and on a Windows host alike the route of a file is the text
  \<open>/\<close>, segment, \<open>/\<close>, ..., directory, \<open>/\<close>, file name, and for \<open>index.html\<close>
  the route of the directory that holds it.
\<close>

theorem useStatic_routes:
  "(let rts = map (joined_route join prefix) (tree_files entries);
        k = bound_count (routes this) [] rts
    in case useStatic join entries d prefix this of (tr, res, this') \<Rightarrow>
         map path (routes this') = map path (routes this) @ take k rts \<and>
         res = (if k = length rts then Inr () else Inl (RouteAlreadyBoundError (rts ! k))) \<and>
         list_all (\<lambda>p. CHR 0x5C \<notin> set p)
           (drop (length (routes this)) (map path (routes this')))) \<and>
   (list_all good_name segs \<and> list_all good_file (tree_files entries) \<longrightarrow>
      map (joined_route posix_join (abs_path segs)) (tree_files entries) =
        map (claimed_route segs) (tree_files entries)) \<and>
   (list_all windows_name segs \<and> list_all windows_file (tree_files entries) \<longrightarrow>
      map (joined_route win32_join (abs_path segs)) (tree_files entries) =
        map (claimed_route segs) (tree_files entries))"
proof -
  let ?fs = "tree_files entries"
  let ?rts = "map (joined_route join prefix) ?fs"
  let ?k = "bound_count (routes this) [] ?rts"
  have rts: "map (static_route join prefix) ?fs = ?rts"
    by (simp add: static_route_joined)
  have k: "?k \<le> length ?fs"
    using bound_count_le [of "routes this" "[]" ?rts] by simp
  have us: "useStatic join entries d prefix this =
      (map (\<lambda>f. ReadFileSync (static_path join d f)) (take (Suc ?k) ?fs),
       if ?k = length ?fs then Inr ()
       else Inl (RouteAlreadyBoundError (static_route join prefix (?fs ! ?k))),
       this\<lparr>routes := routes this @ map (static_binding join prefix) (take ?k ?fs)\<rparr>)"
    unfolding useStatic_run Let_def rts by (rule refl)
  have paths: "map path (routes this @ map (static_binding join prefix) (take ?k ?fs)) =
      map path (routes this) @ take ?k ?rts"
    by (simp add: comp_def path_static_binding static_route_joined take_map)
  have res: "(if ?k = length ?fs then Inr ()
       else Inl (RouteAlreadyBoundError (static_route join prefix (?fs ! ?k)))) =
      (if ?k = length ?rts then Inr () else Inl (RouteAlreadyBoundError (?rts ! ?k)))"
    using k by (simp add: static_route_joined)
  have clean: "list_all (\<lambda>p. CHR 0x5C \<notin> set p)
      (drop (length (routes this)) (map path (routes this) @ take ?k ?rts))"
    by (auto simp add: list_all_iff joined_route_def Let_def forward_slashes_no_backslash
        dest!: in_set_takeD)
  have run: "(let rts = ?rts; k = bound_count (routes this) [] rts
    in case useStatic join entries d prefix this of (tr, res, this') \<Rightarrow>
         map path (routes this') = map path (routes this) @ take k rts \<and>
         res = (if k = length rts then Inr () else Inl (RouteAlreadyBoundError (rts ! k))) \<and>
         list_all (\<lambda>p. CHR 0x5C \<notin> set p)
           (drop (length (routes this)) (map path (routes this'))))"
    unfolding Let_def us prod.case res
    using paths clean by (simp del: map_append)
  have posix: "map (joined_route posix_join (abs_path segs)) ?fs = map (claimed_route segs) ?fs"
    if "list_all good_name segs" "list_all good_file ?fs"
  proof (rule map_cong [OF refl])
    fix f assume "f \<in> set ?fs"
    with that(2) have "good_file f" by (simp add: list_all_iff)
    then show "joined_route posix_join (abs_path segs) f = claimed_route segs f"
      using joined_route_posix [OF that(1), of "fst f" "fst (snd f)" "snd (snd f)"] by simp
  qed
  have win: "map (joined_route win32_join (abs_path segs)) ?fs = map (claimed_route segs) ?fs"
    if "list_all windows_name segs" "list_all windows_file ?fs"
  proof (rule map_cong [OF refl])
    fix f assume "f \<in> set ?fs"
    with that(2) have "windows_file f" by (simp add: list_all_iff)
    then show "joined_route win32_join (abs_path segs) f = claimed_route segs f"
      using joined_route_win32 [OF that(1), of "fst f" "fst (snd f)" "snd (snd f)"] by simp
  qed
  show ?thesis
    using run posix win by blast
qed

theorem useStatic_routes_witness:
  "list_all good_name [''static''] \<and> list_all good_file (tree_files site_tree) \<and>
   list_all windows_name [''static''] \<and> list_all windows_file (tree_files site_tree) \<and>
   map (\<lambda>f. (fst f, fst (snd f))) (tree_files site_tree) =
     [([], ''index.html''), ([''img''], ''logo.png''), ([''img''], ''README''),
      ([''sub''], ''index.html''), ([''sub''], ''jquery.min.js'')] \<and>
   map (claimed_route [''static'']) (tree_files site_tree) =
     [''/static'', ''/static/img/logo.png'', ''/static/img/README'', ''/static/sub'',
      ''/static/sub/jquery.min.js''] \<and>
   fst (snd (useStatic posix_join site_tree ''./static'' (abs_path [''static'']) new_shell)) = Inr () \<and>
   map path (routes (snd (snd
       (useStatic posix_join site_tree ''./static'' (abs_path [''static'']) new_shell)))) =
     [''/static'', ''/static/img/logo.png'', ''/static/img/README'', ''/static/sub'',
      ''/static/sub/jquery.min.js''] \<and>
   foldl win32_join (abs_path [''static'']) [''img'', ''logo.png''] =
     [CHR 0x5C] @ ''static'' @ [CHR 0x5C] @ ''img'' @ [CHR 0x5C] @ ''logo.png'' \<and>
   map path (routes (snd (snd
       (useStatic win32_join site_tree ''./static'' (abs_path [''static'']) new_shell)))) =
     [''/static'', ''/static/img/logo.png'', ''/static/img/README'', ''/static/sub'',
      ''/static/sub/jquery.min.js''] \<and>
   map path (routes (snd (snd
       (useStatic posix_join [File ''a.txt'' ''x''] ''./static''
          ([CHR 0x5C] @ ''win'' @ [CHR 0x5C] @ ''style'') new_shell)))) = [''/win/style/a.txt''] \<and>
   useStatic posix_join [File ''b.txt'' ''x'', File ''a.txt'' ''y'', File ''c.txt'' ''z''] ''./static'' ''/site''
       (snd (get ''/site/a.txt'' (text_listener ''one'') new_shell)) =
     ([ReadFileSync ''static/b.txt'', ReadFileSync ''static/a.txt''],
      Inl (RouteAlreadyBoundError ''/site/a.txt''),
      (snd (get ''/site/a.txt'' (text_listener ''one'') new_shell))
        \<lparr>routes := routes (snd (get ''/site/a.txt'' (text_listener ''one'') new_shell)) @
           [static_binding posix_join ''/site'' ([], ''b.txt'', ''x'')]\<rparr>)"
proof -
  have g: "list_all good_name [''static'']" "list_all good_file (tree_files site_tree)"
    "list_all windows_name [''static'']" "list_all windows_file (tree_files site_tree)"
    by (simp_all add: site_tree_def good_name_def good_file_def windows_name_def windows_file_def)
  have files: "map (\<lambda>f. (fst f, fst (snd f))) (tree_files site_tree) =
     [([], ''index.html''), ([''img''], ''logo.png''), ([''img''], ''README''),
      ([''sub''], ''index.html''), ([''sub''], ''jquery.min.js'')]"
    by (simp add: site_tree_def)
  have claimed: "map (claimed_route [''static'']) (tree_files site_tree) =
     [''/static'', ''/static/img/logo.png'', ''/static/img/README'', ''/static/sub'',
      ''/static/sub/jquery.min.js'']"
    by (simp add: site_tree_def claimed_route_def abs_path_def forward_slashes_def)
  have posix: "fst (snd (useStatic posix_join site_tree ''./static'' (abs_path [''static'']) new_shell)) = Inr ()"
    "map path (routes (snd (snd
       (useStatic posix_join site_tree ''./static'' (abs_path [''static'']) new_shell)))) =
     [''/static'', ''/static/img/logo.png'', ''/static/img/README'', ''/static/sub'',
      ''/static/sub/jquery.min.js'']"
    "map path (routes (snd (snd
       (useStatic posix_join [File ''a.txt'' ''x''] ''./static''
          ([CHR 0x5C] @ ''win'' @ [CHR 0x5C] @ ''style'') new_shell)))) = [''/win/style/a.txt'']"
    by (simp_all add: site_tree_def new_shell_def constructor_def get_def posix_join_def
        posix_normalize_def file_name_def file_extension_def replaceAll_def Let_def abs_path_def)
  have win: "foldl win32_join (abs_path [''static'']) [''img'', ''logo.png''] =
     [CHR 0x5C] @ ''static'' @ [CHR 0x5C] @ ''img'' @ [CHR 0x5C] @ ''logo.png''"
    "map path (routes (snd (snd
       (useStatic win32_join site_tree ''./static'' (abs_path [''static'']) new_shell)))) =
     [''/static'', ''/static/img/logo.png'', ''/static/img/README'', ''/static/sub'',
      ''/static/sub/jquery.min.js'']"
    by (simp_all add: site_tree_def new_shell_def constructor_def get_def win32_join_def
        win32_normalize_def win32_root_def isPathSeparator_def isWindowsDeviceRoot_def
        file_name_def file_extension_def replaceAll_def Let_def abs_path_def)
  have throw: "useStatic posix_join [File ''b.txt'' ''x'', File ''a.txt'' ''y'', File ''c.txt'' ''z''] ''./static'' ''/site''
       (snd (get ''/site/a.txt'' (text_listener ''one'') new_shell)) =
     ([ReadFileSync ''static/b.txt'', ReadFileSync ''static/a.txt''],
      Inl (RouteAlreadyBoundError ''/site/a.txt''),
      (snd (get ''/site/a.txt'' (text_listener ''one'') new_shell))
        \<lparr>routes := routes (snd (get ''/site/a.txt'' (text_listener ''one'') new_shell)) @
           [static_binding posix_join ''/site'' ([], ''b.txt'', ''x'')]\<rparr>)"
    by (simp add: new_shell_def constructor_def get_def posix_join_def
        posix_normalize_def file_name_def file_extension_def replaceAll_def Let_def
        static_binding_def static_route_def)
  show ?thesis
    using useStatic_routes [where segs = "[''static'']" and entries = site_tree
        and join = posix_join and d = "''./static''" and prefix = "abs_path [''static'']"
        and this = new_shell]
    by (simp only: g files claimed posix win throw simp_thms)
qed

section \<open>The earlier copy of the module: what differs\<close>

text \<open>
  In the earlier copy \<open>get\<close> (and \<open>post\<close> alike) throws as soon as a binding of
  the same path exists, whatever its method.
\<close>

lemma get_part_000_cases:
  "get_part_000 p l this =
     (if \<exists>r \<in> set (routes this). path r = p then (Inl (RouteAlreadyBoundError p), this)
      else (Inr (), this\<lparr>routes := routes this @
                      [\<lparr>path = p, method_of = ''GET'', callback = l\<rparr>]\<rparr>))"
  by (auto simp add: get_part_000_def forEach_cases)

lemma post_part_000_cases:
  "post_part_000 p l this =
     (if \<exists>r \<in> set (routes this). path r = p then (Inl (RouteAlreadyBoundError p), this)
      else (Inr (), this\<lparr>routes := routes this @
                      [\<lparr>path = p, method_of = ''POST'', callback = l\<rparr>]\<rparr>))"
  by (auto simp add: post_part_000_def forEach_cases)

lemma post_after_get_part_000:
  "fst (post_part_000 ''/a'' (text_listener ''two'')
          (snd (get_part_000 ''/a'' (text_listener ''one'') new_shell))) =
     Inl (RouteAlreadyBoundError ''/a'')"
  by (simp add: get_part_000_cases post_part_000_cases new_shell_def constructor_def)

text \<open>
  The earlier copy cuts a name at its first dot and takes what stands before
  the second one; a name without a dot has no extension there.
\<close>

lemma file_extension_part_000_no_dot:
  "CHR ''.'' \<notin> set n \<Longrightarrow> file_extension_part_000 n = None"
  by (simp add: file_extension_part_000_def split_no_sep)

lemma file_extension_part_000_first_dot:
  "file_extension_part_000 ''jquery.min.js'' = Some ''min'' \<and>
   file_name_part_000 ''jquery.min.js'' = Some ''jquery'' \<and>
   file_extension ''jquery.min.js'' = ''js'' \<and>
   file_name ''jquery.min.js'' = ''jquery.min''"
  by (simp add: file_extension_part_000_def file_name_part_000_def file_extension_def
      file_name_def)

end
